theory Spec2Isabelle
  imports Complex_Main "HOL-Library.Word"
begin

section \<open>The distributed EMC iteration engine of CuPADMAN\<close>

text \<open>
  The development embeds three source files: \<^verbatim>\<open>src/kernels.py\<close> (the CUDA kernels),
  \<^verbatim>\<open>src/emc.py\<close> (the in-plane rotation engine) and \<^verbatim>\<open>src/cupadman/emc.py\<close> (the
  blocked, multi-stream engine). Double precision values are embedded as \<^typ>\<open>real\<close>:
  every statement below is one of exact arithmetic. Device arrays are lists, a
  two-dimensional array is the list of its rows. Python integers that count things
  (ranks, frames, orientations) are \<^typ>\<open>nat\<close>; memory sizes are \<^typ>\<open>int\<close>.
\<close>

subsection \<open>Python and NumPy primitives\<close>

datatype py_error = ZeroDivisionError | ValueError | CollectiveMismatch

text \<open>
  \<^verbatim>\<open>ZeroDivisionError\<close> and \<^verbatim>\<open>ValueError\<close> are Python's. \<open>CollectiveMismatch\<close> stands for
  a run in which the ranks do not enter the same sequence of collectives, which MPI
  answers with a hang or an abort.

  \<^verbatim>\<open>range(start, stop, step)\<close> for non-negative arguments; the loops below call it with
  the number of processes as step, which is positive.
\<close>

function py_range :: "nat \<Rightarrow> nat \<Rightarrow> nat \<Rightarrow> nat list" where
  "py_range start stop step =
     (if step = 0 \<or> stop \<le> start then [] else start # py_range (start + step) stop step)"
  by pat_completeness auto
termination
  by (relation "measure (\<lambda>(start, stop, step). stop - start)") auto

declare py_range.simps [simp del]

text \<open>The constants at the head of the two engines.\<close>

definition P_MIN :: real where
  "P_MIN = 1 / 10 ^ 6"

definition MEM_THRESH :: real where
  "MEM_THRESH = 8 / 10"

subsection \<open>Striping of orientations and the block schedule (\<^verbatim>\<open>run_iteration\<close>)\<close>

text \<open>
  The orientations a rank loops over: \<^verbatim>\<open>range(self.rank, self.num_rot, self.num_proc)\<close>,
  in \<^verbatim>\<open>_calculate_prob\<close> and \<^verbatim>\<open>_update_model\<close> of both engines.
\<close>

definition owned_rots :: "nat \<Rightarrow> nat \<Rightarrow> nat \<Rightarrow> nat list" where
  "owned_rots rank num_rot num_proc = py_range rank num_rot num_proc"

text \<open>
  \<^verbatim>\<open>num_rot_p = self.num_rot // self.num_proc\<close>, plus one when
  \<^verbatim>\<open>self.rank < self.num_rot % self.num_proc\<close>. MPI gives \<open>num_proc \<ge> 1\<close>.
\<close>

definition num_rot_p :: "nat \<Rightarrow> nat \<Rightarrow> nat \<Rightarrow> nat" where
  "num_rot_p rank num_rot num_proc =
     (if rank < num_rot mod num_proc then num_rot div num_proc + 1 else num_rot div num_proc)"

text \<open>
  \<^verbatim>\<open>mem_frac = num_rot_p*self.dset.num_data*8 / (self.mem_size - self.dset.mem)\<close>: a true
  division of Python integers, which raises when the divisor is zero.
\<close>

definition mem_frac :: "nat \<Rightarrow> nat \<Rightarrow> int \<Rightarrow> int \<Rightarrow> py_error + real" where
  "mem_frac nrp num_data mem_size mem =
     (if mem_size - mem = 0 then Inl ZeroDivisionError
      else Inr (real (nrp * num_data * 8) / real_of_int (mem_size - mem)))"

text \<open>\<^verbatim>\<open>num_blocks = int(np.ceil(mem_frac / MEM_THRESH))\<close>\<close>

definition num_blocks :: "real \<Rightarrow> int" where
  "num_blocks mf = \<lceil>mf / MEM_THRESH\<rceil>"

text \<open>
  \<^verbatim>\<open>block_sizes = np.array([num_data // num_blocks] * num_blocks)\<close> followed by
  \<^verbatim>\<open>block_sizes[0:num_data % num_blocks] += 1\<close>, for a positive number of blocks.
\<close>

definition block_sizes :: "nat \<Rightarrow> nat \<Rightarrow> nat list" where
  "block_sizes num_data nb =
     (let bs = replicate nb (num_data div nb)
      in map (\<lambda>b. b + 1) (take (num_data mod nb) bs) @ drop (num_data mod nb) bs)"

text \<open>
  The schedule of one rank, lines 98 to 107 of \<^verbatim>\<open>src/cupadman/emc.py\<close>. With no block,
  \<^verbatim>\<open>num_data // num_blocks\<close> divides by zero; with a negative count the list is empty
  and \<^verbatim>\<open>block_sizes.max()\<close> raises.
\<close>

definition block_schedule :: "nat \<Rightarrow> nat \<Rightarrow> nat \<Rightarrow> nat \<Rightarrow> int \<Rightarrow> int \<Rightarrow> py_error + nat list" where
  "block_schedule rank num_rot num_proc num_data mem_size mem =
     (case mem_frac (num_rot_p rank num_rot num_proc) num_data mem_size mem of
        Inl e \<Rightarrow> Inl e
      | Inr mf \<Rightarrow>
          if num_blocks mf = 0 then Inl ZeroDivisionError
          else if num_blocks mf < 0 then Inl ValueError
          else Inr (block_sizes num_data (nat (num_blocks mf))))"

text \<open>
  The frame ranges of the block loop: \<^verbatim>\<open>drange = (b_start, b_start + b)\<close>, then
  \<^verbatim>\<open>b_start += b\<close>.
\<close>

fun dranges :: "nat \<Rightarrow> nat list \<Rightarrow> (nat \<times> nat) list" where
  "dranges b_start [] = []"
| "dranges b_start (b # bs) = (b_start, b_start + b) # dranges (b_start + b) bs"

text \<open>
  The bytes of the probability sub-matrix of a block of \<open>b\<close> frames (\<open>nrp\<close> rows of \<open>b\<close>
  doubles) against the budget \<^verbatim>\<open>MEM_THRESH\<close> times the memory the dataset leaves.
\<close>

definition block_fits :: "nat \<Rightarrow> nat \<Rightarrow> int \<Rightarrow> int \<Rightarrow> bool" where
  "block_fits nrp b mem_size mem \<longleftrightarrow>
     real (nrp * b * 8) \<le> MEM_THRESH * real_of_int (mem_size - mem)"


subsection \<open>Arrays\<close>

text \<open>\<^verbatim>\<open>a[s:e]\<close> for \<open>0 \<le> s \<le> e\<close>.\<close>

definition py_slice :: "nat \<Rightarrow> nat \<Rightarrow> 'a list \<Rightarrow> 'a list" where
  "py_slice s e a = take (e - s) (drop s a)"

text \<open>The second component of the shape of a two-dimensional array, and a column.\<close>

definition ncols :: "'a list list \<Rightarrow> nat" where
  "ncols a = (case a of [] \<Rightarrow> 0 | row # _ \<Rightarrow> length row)"

definition col :: "'a list list \<Rightarrow> nat \<Rightarrow> 'a list" where
  "col a d = map (\<lambda>row. row ! d) a"

text \<open>
  \<^verbatim>\<open>a.max(0)\<close>, \<^verbatim>\<open>a.argmax(axis=0)\<close>, \<^verbatim>\<open>a.sum(0)\<close> and \<^verbatim>\<open>a.sum(1)\<close>. The first two
  raise on an array with no row; the callers below test for that before they use them.
  \<^verbatim>\<open>argmax\<close> returns the first index of the maximum.
\<close>

definition amax0 :: "('a::linorder) list list \<Rightarrow> 'a list" where
  "amax0 a = map (\<lambda>d. Max (set (col a d))) [0..<ncols a]"

definition argmax :: "real list \<Rightarrow> nat" where
  "argmax xs = length (takeWhile (\<lambda>x. x \<noteq> Max (set xs)) xs)"

definition argmax0 :: "real list list \<Rightarrow> nat list" where
  "argmax0 a = map (\<lambda>d. argmax (col a d)) [0..<ncols a]"

definition asum0 :: "real list list \<Rightarrow> real list" where
  "asum0 a = map (\<lambda>d. sum_list (col a d)) [0..<ncols a]"

definition asum1 :: "real list list \<Rightarrow> real list" where
  "asum1 a = map sum_list a"

text \<open>\<^verbatim>\<open>.astype('i4')\<close> on a 64-bit integer keeps the low 32 bits, read as signed.\<close>

definition astype_i4 :: "int \<Rightarrow> int" where
  "astype_i4 v = sint (word_of_int v :: 32 word)"

text \<open>\<^verbatim>\<open>int(np.ceil(n/32.))\<close>, the number of thread blocks for \<open>n\<close> items.\<close>

definition bsize :: "nat \<Rightarrow> nat" where
  "bsize n = nat \<lceil>real n / 32\<rceil>"

subsection \<open>The kernels of \<^verbatim>\<open>src/kernels.py\<close>\<close>

text \<open>
  A launch \<^verbatim>\<open>kernel((grid,), (32,), args)\<close> runs the kernel body once for every thread
  index below \<open>grid * 32\<close>; a launch \<^verbatim>\<open>kernel((grid,)*2, (32,)*2, args)\<close> once for every
  pair of such indices. The threads of one launch are run one after the other here.
  They write to distinct cells or add atomically, and in exact arithmetic the order of
  additions does not matter. Indices are taken as non-negative and unbounded: the
  wrap-around of \<^verbatim>\<open>int\<close> is left out.
\<close>

definition launch_1d :: "nat \<Rightarrow> (nat \<Rightarrow> 's \<Rightarrow> 's) \<Rightarrow> 's \<Rightarrow> 's" where
  "launch_1d grid thr s = fold thr [0..<grid * 32] s"

definition launch_2d :: "nat \<Rightarrow> (nat \<Rightarrow> nat \<Rightarrow> 's \<Rightarrow> 's) \<Rightarrow> 's \<Rightarrow> 's" where
  "launch_2d grid thr s =
     fold (\<lambda>(x, y). thr x y) (List.product [0..<grid * 32] [0..<grid * 32]) s"

definition atomicAdd :: "nat \<Rightarrow> real \<Rightarrow> real list \<Rightarrow> real list" where
  "atomicAdd i v a = a[i := a ! i + v]"

text \<open>The body of \<^verbatim>\<open>calc_prob_all\<close> for thread \<open>d\<close>; the state is the row \<^verbatim>\<open>prob_r\<close>.\<close>

definition calc_prob_all ::
  "real list \<Rightarrow> nat \<Rightarrow> nat list \<Rightarrow> nat list \<Rightarrow> nat list \<Rightarrow> nat list \<Rightarrow>
   nat list \<Rightarrow> nat list \<Rightarrow> nat list \<Rightarrow> real \<Rightarrow> real list \<Rightarrow> nat \<Rightarrow> real list \<Rightarrow> real list" where
  "calc_prob_all lview ndata ones multi o_acc m_acc p_o p_m c_m init scales d prob_r =
     (if d \<ge> ndata then prob_r
      else
        let prob_r = prob_r[d := init * scales ! d];
            prob_r = fold (\<lambda>t prob_r. prob_r[d := prob_r ! d + lview ! (p_o ! t)])
                       [o_acc ! d..<o_acc ! d + ones ! d] prob_r;
            prob_r = fold (\<lambda>t prob_r. prob_r[d := prob_r ! d + lview ! (p_m ! t) * real (c_m ! t)])
                       [m_acc ! d..<m_acc ! d + multi ! d] prob_r
        in prob_r)"

text \<open>The body of \<^verbatim>\<open>merge_all\<close> for thread \<open>d\<close>; the state is \<^verbatim>\<open>view\<close>.\<close>

definition merge_all ::
  "real list \<Rightarrow> nat \<Rightarrow> nat list \<Rightarrow> nat list \<Rightarrow> nat list \<Rightarrow> nat list \<Rightarrow>
   nat list \<Rightarrow> nat list \<Rightarrow> nat list \<Rightarrow> nat \<Rightarrow> real list \<Rightarrow> real list" where
  "merge_all prob_r ndata ones multi o_acc m_acc p_o p_m c_m d view =
     (if d \<ge> ndata then view
      else
        let view = fold (\<lambda>t. atomicAdd (p_o ! t) (prob_r ! d))
                     [o_acc ! d..<o_acc ! d + ones ! d] view;
            view = fold (\<lambda>t. atomicAdd (p_m ! t) (prob_r ! d * real (c_m ! t)))
                     [m_acc ! d..<m_acc ! d + multi ! d] view
        in view)"

text \<open>The body of \<^verbatim>\<open>slice_gen\<close> for thread \<open>(x, y)\<close>; the state is \<^verbatim>\<open>view\<close>.\<close>

definition slice_gen ::
  "real list \<Rightarrow> real \<Rightarrow> real \<Rightarrow> nat \<Rightarrow> real list \<Rightarrow> int \<Rightarrow> nat \<Rightarrow> nat \<Rightarrow> real list \<Rightarrow> real list" where
  "slice_gen model angle scale sz bg log_flag x y view =
     (if int x > int sz - 1 \<or> int y > int sz - 1 then view
      else
        let t = x * sz + y;
            view = view[t := (if log_flag \<noteq> 0 then - 1000 else 0)];
            cen = int sz div 2;
            ac = cos angle; as = sin angle;
            tx = real_of_int (int x - cen) * ac - real_of_int (int y - cen) * as + real_of_int cen;
            ty = real_of_int (int x - cen) * as + real_of_int (int y - cen) * ac + real_of_int cen;
            ix = \<lfloor>tx\<rfloor>; iy = \<lfloor>ty\<rfloor>
        in if ix < 0 \<or> ix > int sz - 2 \<or> iy < 0 \<or> iy > int sz - 2 then view
           else
             let fx = tx - real_of_int ix; fy = ty - real_of_int iy;
                 cx = 1 - fx; cy = 1 - fy;
                 v = model ! nat (ix * int sz + iy) * cx * cy
                   + model ! nat ((ix + 1) * int sz + iy) * fx * cy
                   + model ! nat (ix * int sz + (iy + 1)) * cx * fy
                   + model ! nat ((ix + 1) * int sz + (iy + 1)) * fx * fy;
                 v = v * scale;
                 v = v + bg ! t
             in view[t := (if log_flag \<noteq> 0 then (if v < 1 / 10 ^ 20 then - 1000 else ln v)
                           else v)])"

text \<open>
  The body of \<^verbatim>\<open>slice_merge\<close> for thread \<open>(x, y)\<close>; the state is the pair of \<^verbatim>\<open>model\<close>
  and \<^verbatim>\<open>mweights\<close>.
\<close>

definition slice_merge ::
  "real list \<Rightarrow> real \<Rightarrow> nat \<Rightarrow> nat \<Rightarrow> nat \<Rightarrow> real list \<times> real list \<Rightarrow> real list \<times> real list" where
  "slice_merge view angle sz x y mw =
     (if int x > int sz - 1 \<or> int y > int sz - 1 then mw
      else
        let t = x * sz + y;
            cen = int sz div 2;
            ac = cos angle; as = sin angle;
            tx = real_of_int (int x - cen) * ac - real_of_int (int y - cen) * as + real_of_int cen;
            ty = real_of_int (int x - cen) * as + real_of_int (int y - cen) * ac + real_of_int cen;
            ix = \<lfloor>tx\<rfloor>; iy = \<lfloor>ty\<rfloor>
        in if ix < 0 \<or> ix > int sz - 2 \<or> iy < 0 \<or> iy > int sz - 2 then mw
           else
             let fx = tx - real_of_int ix; fy = ty - real_of_int iy;
                 cx = 1 - fx; cy = 1 - fy;
                 (model, mweights) = mw;
                 model = atomicAdd (nat (ix * int sz + iy)) (view ! t * cx * cy) model;
                 mweights = atomicAdd (nat (ix * int sz + iy)) (cx * cy) mweights;
                 model = atomicAdd (nat ((ix + 1) * int sz + iy)) (view ! t * fx * cy) model;
                 mweights = atomicAdd (nat ((ix + 1) * int sz + iy)) (fx * cy) mweights;
                 model = atomicAdd (nat (ix * int sz + (iy + 1))) (view ! t * cx * fy) model;
                 mweights = atomicAdd (nat (ix * int sz + (iy + 1))) (cx * fy) mweights;
                 model = atomicAdd (nat ((ix + 1) * int sz + (iy + 1))) (view ! t * fx * fy) model;
                 mweights = atomicAdd (nat ((ix + 1) * int sz + (iy + 1))) (fx * fy) mweights
             in (model, mweights))"

subsection \<open>Collectives\<close>

text \<open>
  The processes run the same program and meet at every collective, so a run of the
  group is a function of the list of the ranks' states, rank 0 first. A collective takes
  the send buffers of all ranks: \<^verbatim>\<open>Allreduce\<close> gives every rank the element-wise maximum
  or sum, \<^verbatim>\<open>Reduce\<close> gives the sum to the root.
\<close>

definition Allreduce_MAX :: "('a::linorder) list list \<Rightarrow> 'a list" where
  "Allreduce_MAX sendbufs = map (\<lambda>d. Max (set (col sendbufs d))) [0..<ncols sendbufs]"

definition Allreduce_SUM :: "real list list \<Rightarrow> real list" where
  "Allreduce_SUM sendbufs = map (\<lambda>d. sum_list (col sendbufs d)) [0..<ncols sendbufs]"

definition Reduce_SUM :: "real list list \<Rightarrow> real list" where
  "Reduce_SUM sendbufs = map (\<lambda>d. sum_list (col sendbufs d)) [0..<ncols sendbufs]"

subsection \<open>The state of a rank\<close>

text \<open>
  The dataset and the reconstructor object, with the fields the iteration reads or
  writes. \<open>mem\<close> and \<open>bg\<close> belong to the dataset of \<^verbatim>\<open>src/cupadman/emc.py\<close> only, as do
  \<open>num_streams\<close>, \<open>mem_size\<close> and a \<open>bsize_data\<close> that changes; \<open>sizeN\<close> is \<^verbatim>\<open>self.size\<close>.
  Counts and pixel indices are non-negative.
\<close>

record dataset =
  num_data :: nat
  ones :: "nat list"
  multi :: "nat list"
  ones_accum :: "nat list"
  multi_accum :: "nat list"
  place_ones :: "nat list"
  place_multi :: "nat list"
  count_multi :: "nat list"
  mem :: int
  bg :: "real list"

record emc =
  rank :: nat
  num_proc :: nat
  sizeN :: nat
  num_rot :: nat
  dset :: dataset
  model :: "real list"
  mweights :: "real list"
  scales :: "real list"
  prob :: "real list list"
  rmax :: "int list"
  num_streams :: nat
  mem_size :: int
  bsize_data :: nat

subsection \<open>The normalization both engines share\<close>

text \<open>
  \<^verbatim>\<open>(self.prob.argmax(axis=0) * self.num_proc + self.rank).astype('i4')\<close> and
  \<^verbatim>\<open>rmax_p[max_exp_p != max_exp] = -1\<close>.
\<close>

definition local_rmax :: "nat \<Rightarrow> nat \<Rightarrow> real list list \<Rightarrow> int list" where
  "local_rmax nproc rk p =
     map (\<lambda>a. astype_i4 (int a * int nproc + int rk)) (argmax0 p)"

definition invalidate_rmax :: "int list \<Rightarrow> real list \<Rightarrow> real list \<Rightarrow> int list" where
  "invalidate_rmax rmax_p max_exp_p max_exp =
     map (\<lambda>(r, m, g). if m \<noteq> g then - 1 else r) (zip rmax_p (zip max_exp_p max_exp))"

text \<open>\<^verbatim>\<open>cp.exp(self.prob - max_exp)\<close> and the division by \<^verbatim>\<open>psum\<close>, both broadcast over rows.\<close>

definition exp_subtract :: "real list list \<Rightarrow> real list \<Rightarrow> real list list" where
  "exp_subtract p max_exp = map (\<lambda>row. map2 (\<lambda>v m. exp (v - m)) row max_exp) p"

definition divide_rows :: "real list list \<Rightarrow> real list \<Rightarrow> real list list" where
  "divide_rows p psum = map (\<lambda>row. map2 (\<lambda>v s. v / s) row psum) p"

text \<open>
  \<^verbatim>\<open>_normalize_prob\<close> up to the division: lines 119 to 133 of \<^verbatim>\<open>src/emc.py\<close>, and the same
  statements at lines 148 to 162 of \<^verbatim>\<open>src/cupadman/emc.py\<close>. The result is the divided
  matrix of every rank and \<^verbatim>\<open>self.rmax\<close>. A rank with no row raises at \<^verbatim>\<open>self.prob.max(0)\<close>.
\<close>

definition normalize_sums :: "emc list \<Rightarrow> py_error + real list list list \<times> int list" where
  "normalize_sums ranks =
     (if list_ex (\<lambda>self. prob self = []) ranks then Inl ValueError
      else
        let max_exp_p = map (\<lambda>self. amax0 (prob self)) ranks;
            rmax_p = map (\<lambda>self. local_rmax (num_proc self) (rank self) (prob self)) ranks;
            max_exp = Allreduce_MAX max_exp_p;
            rmax_p = map2 (\<lambda>r m. invalidate_rmax r m max_exp) rmax_p max_exp_p;
            rmax_all = Allreduce_MAX rmax_p;
            probs = map (\<lambda>self. exp_subtract (prob self) max_exp) ranks;
            psum_p = map asum0 probs;
            psum = Allreduce_SUM psum_p;
            probs = map (\<lambda>p. divide_rows p psum) probs
        in Inr (probs, rmax_all))"

text \<open>
  \<^verbatim>\<open>_normalize_model\<close>, the same in both engines. Each rank comes with its device
  accumulators. The root sums them, divides where the summed weight is positive, and
  broadcasts the model; the weights of the other ranks stay local.
\<close>

definition normalize_model :: "(emc \<times> real list \<times> real list) list \<Rightarrow> emc list" where
  "normalize_model ranks =
     (let root_model = Reduce_SUM (map (\<lambda>(self, dmodel, dmweights). dmodel) ranks);
          root_mweights = Reduce_SUM (map (\<lambda>(self, dmodel, dmweights). dmweights) ranks);
          root_model = map2 (\<lambda>m w. if w > 0 then m / w else m) root_model root_mweights
      in map (\<lambda>(self, dmodel, dmweights).
                self\<lparr>model := root_model,
                     mweights := (if rank self = 0 then root_mweights else dmweights)\<rparr>) ranks)"

subsection \<open>The engine of \<^verbatim>\<open>src/emc.py\<close>\<close>

text \<open>\<^verbatim>\<open>r/self.num_rot*2.*np.pi\<close>\<close>

definition angle_of :: "nat \<Rightarrow> nat \<Rightarrow> real" where
  "angle_of r nrot = real r / real nrot * 2 * pi"

text \<open>
  \<^verbatim>\<open>_calculate_prob\<close>: the body of the loop over the owned orientations, then the
  function. \<^verbatim>\<open>self.bsize_model\<close> and \<^verbatim>\<open>self.bsize_data\<close> are set once in the
  constructor, from \<^verbatim>\<open>self.size\<close> and the number of frames.

  Modelled from the spec: the background array of \<^verbatim>\<open>slice_gen\<close>. The kernel of
  \<^verbatim>\<open>src/kernels.py\<close> takes one and this call passes none; the spec renders with
  background 0, scale 1 and the log flag set.
\<close>

definition emc_calculate_prob_step ::
  "real list \<Rightarrow> real \<Rightarrow> nat \<times> nat \<Rightarrow> emc \<times> real list \<Rightarrow> emc \<times> real list" where
  "emc_calculate_prob_step dmodel msum = (\<lambda>(i, r) (self, view).
     let view = launch_2d (bsize (sizeN self))
                  (slice_gen dmodel (angle_of r (num_rot self)) 1 (sizeN self)
                     (replicate (sizeN self * sizeN self) 0) 1) view;
         prob_r = launch_1d (bsize (num_data (dset self)))
                    (calc_prob_all view (num_data (dset self))
                       (ones (dset self)) (multi (dset self))
                       (ones_accum (dset self)) (multi_accum (dset self))
                       (place_ones (dset self)) (place_multi (dset self))
                       (count_multi (dset self)) msum (scales self))
                    (prob self ! i)
     in (self\<lparr>prob := (prob self)[i := prob_r]\<rparr>, view))"

definition emc_calculate_prob :: "emc \<Rightarrow> real list \<Rightarrow> real list \<Rightarrow> emc \<times> real list" where
  "emc_calculate_prob self dmodel view =
     (let msum = - sum_list (model self)
      in fold (emc_calculate_prob_step dmodel msum)
           (enumerate 0 (owned_rots (rank self) (num_rot self) (num_proc self))) (self, view))"

text \<open>\<^verbatim>\<open>_normalize_prob\<close>: the last line is \<^verbatim>\<open>self.prob[self.prob < P_MIN] = 0\<close>.\<close>

definition emc_normalize_prob :: "emc list \<Rightarrow> py_error + emc list" where
  "emc_normalize_prob ranks =
     (case normalize_sums ranks of
        Inl e \<Rightarrow> Inl e
      | Inr (probs, rmax_all) \<Rightarrow>
          Inr (map2 (\<lambda>self p. self\<lparr>prob := map (map (\<lambda>v. if v < P_MIN then 0 else v)) p,
                                     rmax := rmax_all\<rparr>) ranks probs))"

text \<open>
  \<^verbatim>\<open>_update_model\<close>: the body of the loop over the owned orientations, then the function.
  The state of the loop is the view buffer and the two device accumulators.
\<close>

definition emc_update_model_step ::
  "emc \<Rightarrow> real list \<Rightarrow> nat \<times> nat \<Rightarrow> real list \<times> real list \<times> real list
     \<Rightarrow> real list \<times> real list \<times> real list" where
  "emc_update_model_step self p_norm = (\<lambda>(i, r) (view, dmodel, dmweights).
     if p_norm ! i = 0 then (view, dmodel, dmweights)
     else
       let view = replicate (length view) 0;
           view = launch_1d (bsize (num_data (dset self)))
                    (merge_all (prob self ! i) (num_data (dset self))
                       (ones (dset self)) (multi (dset self))
                       (ones_accum (dset self)) (multi_accum (dset self))
                       (place_ones (dset self)) (place_multi (dset self))
                       (count_multi (dset self)))
                    view;
           (dmodel, dmweights) = launch_2d (bsize (sizeN self))
                    (slice_merge (map (\<lambda>v. v / p_norm ! i) view)
                       (angle_of r (num_rot self)) (sizeN self))
                    (dmodel, dmweights)
       in (view, dmodel, dmweights))"

definition emc_update_model ::
  "emc \<Rightarrow> real list \<Rightarrow> real list \<Rightarrow> real list \<Rightarrow> real list \<times> real list \<times> real list" where
  "emc_update_model self view dmodel dmweights =
     (let p_norm = asum1 (prob self);
          dmodel = replicate (length dmodel) 0;
          dmweights = replicate (length dmweights) 0
      in fold (emc_update_model_step self p_norm)
           (enumerate 0 (owned_rots (rank self) (num_rot self) (num_proc self)))
           (view, dmodel, dmweights))"

text \<open>
  \<^verbatim>\<open>run_iteration\<close> for the whole group. \<open>bufs\<close> gives, for each rank, what \<^verbatim>\<open>cp.empty\<close>
  returns for \<^verbatim>\<open>self.prob\<close> and for \<^verbatim>\<open>view\<close>: arrays of the requested shape with
  arbitrary content.
\<close>

definition emc_run_iteration ::
  "emc list \<Rightarrow> (real list list \<times> real list) list \<Rightarrow> py_error + emc list" where
  "emc_run_iteration ranks bufs =
     (let estep = map2 (\<lambda>self (prob_empty, view_empty).
                     emc_calculate_prob (self\<lparr>prob := prob_empty\<rparr>) (model self) view_empty)
                   ranks bufs
      in case emc_normalize_prob (map fst estep) of
           Inl e \<Rightarrow> Inl e
         | Inr normed \<Rightarrow>
             Inr (normalize_model
                    (map2 (\<lambda>self (_, view).
                        let (view, dmodel, dmweights) =
                              emc_update_model self view (model self) (mweights self)
                        in (self, dmodel, dmweights))
                      normed estep)))"

subsection \<open>The engine of \<^verbatim>\<open>src/cupadman/emc.py\<close>\<close>

text \<open>
  The kernels this engine launches for rendering and back-projection take a quaternion
  and the detector, and are not among the kernels of \<^verbatim>\<open>src/kernels.py\<close>. They are
  parameters: \<open>slice_gen3 r dmodel view\<close> is the view that the launch of \<^verbatim>\<open>slice_gen\<close>
  for orientation \<open>r\<close> leaves, and \<open>slice_merge3 r view (dmodel, dmweights)\<close> is the pair
  of accumulators that the launch of \<^verbatim>\<open>slice_merge\<close> leaves. The streams are run one
  after the other: each has its own view buffer and its launches are ordered.
\<close>

definition cupadman_calculate_prob_step ::
  "(nat \<Rightarrow> real list \<Rightarrow> real list \<Rightarrow> real list) \<Rightarrow> real list \<Rightarrow> real \<Rightarrow> nat \<Rightarrow> nat
     \<Rightarrow> nat \<times> nat \<Rightarrow> emc \<times> real list list \<Rightarrow> emc \<times> real list list" where
  "cupadman_calculate_prob_step slice_gen3 dmodel msum s e = (\<lambda>(i, r) (self, views).
     let num_data_b = e - s;
         snum = i mod num_streams self;
         views = views[snum := slice_gen3 r dmodel (views ! snum)];
         prob_r = launch_1d (bsize_data self)
                    (calc_prob_all (views ! snum) num_data_b
                       (py_slice s e (ones (dset self))) (py_slice s e (multi (dset self)))
                       (py_slice s e (ones_accum (dset self)))
                       (py_slice s e (multi_accum (dset self)))
                       (place_ones (dset self)) (place_multi (dset self))
                       (count_multi (dset self)) msum (py_slice s e (scales self)))
                    (prob self ! i)
     in (self\<lparr>prob := (prob self)[i := prob_r]\<rparr>, views))"

definition cupadman_calculate_prob ::
  "(nat \<Rightarrow> real list \<Rightarrow> real list \<Rightarrow> real list) \<Rightarrow> emc \<Rightarrow> real list \<Rightarrow> real list list
     \<Rightarrow> nat \<times> nat \<Rightarrow> emc \<times> real list list" where
  "cupadman_calculate_prob slice_gen3 self dmodel views drange =
     (let msum = - sum_list (model self);
          s = fst drange;
          e = snd drange;
          num_data_b = e - s;
          self = self\<lparr>bsize_data := bsize num_data_b\<rparr>
      in fold (cupadman_calculate_prob_step slice_gen3 dmodel msum s e)
           (enumerate 0 (owned_rots (rank self) (num_rot self) (num_proc self))) (self, views))"

text \<open>\<^verbatim>\<open>_normalize_prob\<close>: the last line is \<^verbatim>\<open>self.prob.clip(a_min=P_MIN, out=self.prob)\<close>.\<close>

definition cupadman_normalize_prob :: "emc list \<Rightarrow> py_error + emc list" where
  "cupadman_normalize_prob ranks =
     (case normalize_sums ranks of
        Inl e \<Rightarrow> Inl e
      | Inr (probs, rmax_all) \<Rightarrow>
          Inr (map2 (\<lambda>self p. self\<lparr>prob := map (map (\<lambda>v. max v P_MIN)) p,
                                     rmax := rmax_all\<rparr>) ranks probs))"

text \<open>
  The view that \<^verbatim>\<open>_update_model\<close> hands to \<^verbatim>\<open>slice_merge\<close> for row \<open>i\<close>: the stream's
  buffer is zeroed, \<^verbatim>\<open>merge_all\<close> scatters the frames of the block into it, and it is
  divided by \<^verbatim>\<open>p_norm[i]\<close> and reduced by the background.
\<close>

definition cupadman_merged_view ::
  "emc \<Rightarrow> real list \<Rightarrow> nat \<Rightarrow> real list \<Rightarrow> nat \<times> nat \<Rightarrow> real list" where
  "cupadman_merged_view self p_norm i view drange =
     (let s = fst drange;
          e = snd drange;
          num_data_b = e - s;
          view = replicate (length view) 0;
          view = launch_1d (bsize_data self)
                   (merge_all (prob self ! i) num_data_b
                      (py_slice s e (ones (dset self))) (py_slice s e (multi (dset self)))
                      (py_slice s e (ones_accum (dset self)))
                      (py_slice s e (multi_accum (dset self)))
                      (place_ones (dset self)) (place_multi (dset self))
                      (count_multi (dset self)))
                   view
      in map2 (\<lambda>v b. v / p_norm ! i - b) view (bg (dset self)))"

definition cupadman_update_model_step ::
  "(nat \<Rightarrow> real list \<Rightarrow> real list \<times> real list \<Rightarrow> real list \<times> real list) \<Rightarrow> emc \<Rightarrow> real list
     \<Rightarrow> nat \<times> nat \<Rightarrow> nat \<times> nat \<Rightarrow> real list list \<times> real list \<times> real list
     \<Rightarrow> real list list \<times> real list \<times> real list" where
  "cupadman_update_model_step slice_merge3 self p_norm drange = (\<lambda>(i, r) (views, dmodel, dmweights).
     if p_norm ! i = 0 then (views, dmodel, dmweights)
     else
       let snum = i mod num_streams self;
           views = views[snum := cupadman_merged_view self p_norm i (views ! snum) drange];
           (dmodel, dmweights) = slice_merge3 r (views ! snum) (dmodel, dmweights)
       in (views, dmodel, dmweights))"

definition cupadman_update_model ::
  "(nat \<Rightarrow> real list \<Rightarrow> real list \<times> real list \<Rightarrow> real list \<times> real list) \<Rightarrow> emc
     \<Rightarrow> real list list \<Rightarrow> real list \<Rightarrow> real list \<Rightarrow> nat \<times> nat
     \<Rightarrow> real list list \<times> real list \<times> real list" where
  "cupadman_update_model slice_merge3 self views dmodel dmweights drange =
     (let p_norm = asum1 (prob self);
          dmodel = replicate (length dmodel) 0;
          dmweights = replicate (length dmweights) 0
      in fold (cupadman_update_model_step slice_merge3 self p_norm drange)
           (enumerate 0 (owned_rots (rank self) (num_rot self) (num_proc self)))
           (views, dmodel, dmweights))"

text \<open>
  The block loop of \<^verbatim>\<open>run_iteration\<close> for the whole group. The state of a rank is the
  object, the view buffers and the two device accumulators.
\<close>

fun cupadman_blocks ::
  "(nat \<Rightarrow> real list \<Rightarrow> real list \<Rightarrow> real list)
     \<Rightarrow> (nat \<Rightarrow> real list \<Rightarrow> real list \<times> real list \<Rightarrow> real list \<times> real list)
     \<Rightarrow> (nat \<times> nat) list \<Rightarrow> (emc \<times> real list list \<times> real list \<times> real list) list
     \<Rightarrow> py_error + (emc \<times> real list list \<times> real list \<times> real list) list" where
  "cupadman_blocks slice_gen3 slice_merge3 [] st = Inr st"
| "cupadman_blocks slice_gen3 slice_merge3 (drange # rest) st =
     (let estep = map (\<lambda>(self, views, dmodel, dmweights).
                     let (self, views) = cupadman_calculate_prob slice_gen3 self dmodel views drange
                     in (self, views, dmodel, dmweights)) st
      in case cupadman_normalize_prob (map fst estep) of
           Inl e \<Rightarrow> Inl e
         | Inr normed \<Rightarrow>
             cupadman_blocks slice_gen3 slice_merge3 rest
               (map2 (\<lambda>self (_, views, dmodel, dmweights).
                   let (views, dmodel, dmweights) =
                         cupadman_update_model slice_merge3 self views dmodel dmweights drange
                   in (self, views, dmodel, dmweights))
                 normed estep))"

text \<open>
  \<^verbatim>\<open>run_iteration\<close> for the whole group. Every rank computes its own schedule; the
  ranks meet at the collectives of each block, which needs the same schedule on every
  rank. \<open>bufs\<close> gives, for each rank, what \<^verbatim>\<open>cp.empty\<close> returns for \<^verbatim>\<open>self.prob\<close> (used
  when the shape of the buffer at hand differs) and for \<^verbatim>\<open>views\<close>.
\<close>

definition cupadman_run_iteration ::
  "(nat \<Rightarrow> real list \<Rightarrow> real list \<Rightarrow> real list)
     \<Rightarrow> (nat \<Rightarrow> real list \<Rightarrow> real list \<times> real list \<Rightarrow> real list \<times> real list)
     \<Rightarrow> emc list \<Rightarrow> (real list list \<times> real list list) list \<Rightarrow> py_error + emc list" where
  "cupadman_run_iteration slice_gen3 slice_merge3 ranks bufs =
     (let schedules = map (\<lambda>self. block_schedule (rank self) (num_rot self) (num_proc self)
                             (num_data (dset self)) (mem_size self) (mem (dset self))) ranks
      in case schedules of
           [] \<Rightarrow> Inr []
         | Inl e # _ \<Rightarrow> Inl e
         | Inr bs # others \<Rightarrow>
             if list_ex (\<lambda>sch. sch \<noteq> Inr bs) others then Inl CollectiveMismatch
             else
               let st = map2 (\<lambda>self (prob_empty, views_empty).
                          let nrp = num_rot_p (rank self) (num_rot self) (num_proc self);
                              self = (if (length (prob self), ncols (prob self)) \<noteq> (nrp, Max (set bs))
                                      then self\<lparr>prob := prob_empty\<rparr> else self)
                          in (self, views_empty, model self, mweights self))
                        ranks bufs
               in (case cupadman_blocks slice_gen3 slice_merge3 (dranges 0 bs) st of
                     Inl e \<Rightarrow> Inl e
                   | Inr fin \<Rightarrow>
                       Inr (normalize_model
                              (map (\<lambda>(self, views, dmodel, dmweights). (self, dmodel, dmweights))
                                 fin))))"

subsection \<open>A small run\<close>

text \<open>
  One rank, one orientation (the angle 0), a model of 2 by 2 cells and a single frame
  that recorded no photon.
\<close>

definition example_dset :: dataset where
  "example_dset =
     \<lparr>num_data = 1, ones = [0], multi = [0], ones_accum = [0], multi_accum = [0],
      place_ones = [], place_multi = [], count_multi = [], mem = 0, bg = [0, 0, 0, 0]\<rparr>"

definition example_emc :: emc where
  "example_emc =
     \<lparr>rank = 0, num_proc = 1, sizeN = 2, num_rot = 1, dset = example_dset,
      model = [1, 2, 3, 4], mweights = [0, 0, 0, 0], scales = [1], prob = [], rmax = [],
      num_streams = 1, mem_size = 1000, bsize_data = 1\<rparr>"

text \<open>
  For the blocked engine: one rank, one orientation, three frames of which the last
  recorded one photon in pixel 0, and 20 bytes of device memory left by the dataset,
  which gives a block of two frames and a block of one.
\<close>

definition example_cdset :: dataset where
  "example_cdset =
     \<lparr>num_data = 3, ones = [0, 0, 1], multi = [0, 0, 0], ones_accum = [0, 0, 0],
      multi_accum = [0, 0, 0], place_ones = [0], place_multi = [], count_multi = [],
      mem = 0, bg = [0, 0, 0, 0]\<rparr>"

definition example_cupadman :: emc where
  "example_cupadman =
     \<lparr>rank = 0, num_proc = 1, sizeN = 2, num_rot = 1, dset = example_cdset,
      model = [1, 2, 3, 4], mweights = [0, 0, 0, 0], scales = [1, 1, 1], prob = [], rmax = [],
      num_streams = 1, mem_size = 20, bsize_data = 1\<rparr>"

section \<open>Properties\<close>

subsection \<open>The block schedule\<close>

lemma block_sizes_length: "length (block_sizes n nb) = nb"
  by (simp add: block_sizes_def Let_def)

lemma block_sizes_nth:
  assumes "i < nb"
  shows "block_sizes n nb ! i = n div nb + (if i < n mod nb then 1 else 0)"
proof (cases "nb = 0")
  case True
  with assms show ?thesis by simp
next
  case False
  then have m: "n mod nb < nb" by simp
  show ?thesis
  proof (cases "i < n mod nb")
    case True
    then show ?thesis using m assms
      by (simp add: block_sizes_def Let_def nth_append)
  next
    case False
    then show ?thesis using m assms
      by (simp add: block_sizes_def Let_def nth_append min_def)
  qed
qed

lemma block_sizes_sum:
  assumes "0 < nb"
  shows "sum_list (block_sizes n nb) = n"
proof -
  have m: "n mod nb \<le> nb" using assms by (simp add: less_imp_le)
  have "sum_list (block_sizes n nb) = (n mod nb) * (n div nb + 1) + (nb - n mod nb) * (n div nb)"
    using m by (simp add: block_sizes_def Let_def sum_list_replicate min_def)
  also have "\<dots> = (n mod nb + (nb - n mod nb)) * (n div nb) + n mod nb"
    by (simp add: algebra_simps)
  also have "\<dots> = nb * (n div nb) + n mod nb"
    using m by simp
  finally show ?thesis by simp
qed

lemma dranges_concat:
  "concat (map (\<lambda>(s, e). [s..<e]) (dranges b_start bs)) = [b_start..<b_start + sum_list bs]"
proof (induction bs arbitrary: b_start)
  case Nil
  show ?case by simp
next
  case (Cons b bs)
  have "[b_start..<b_start + b] @ [b_start + b..<b_start + b + sum_list bs]
      = [b_start..<b_start + b + sum_list bs]"
    by (metis le_add1 upt_add_eq_append)
  then show ?case using Cons.IH [of "b_start + b"] by (simp add: add.assoc)
qed

text \<open>
  Claim C9. For a positive number of blocks, any two block sizes differ by at most one,
  block \<open>i\<close> has \<open>num_data div num_blocks\<close> frames and one more exactly when
  \<open>i < num_data mod num_blocks\<close>, the sizes add up to \<open>num_data\<close>, and the ranges of the
  block loop, laid end to end, enumerate the frames \<open>0, \<dots>, num_data - 1\<close> once each
  and in order.
\<close>

theorem block_sizes_partition:
  assumes "0 < nb"
  shows "length (block_sizes n nb) = nb
       \<and> (\<forall>i<nb. \<forall>j<nb. block_sizes n nb ! i \<le> block_sizes n nb ! j + 1)
       \<and> (\<forall>i<nb. block_sizes n nb ! i = n div nb + (if i < n mod nb then 1 else 0))
       \<and> sum_list (block_sizes n nb) = n
       \<and> concat (map (\<lambda>(s, e). [s..<e]) (dranges 0 (block_sizes n nb))) = [0..<n]"
proof (intro conjI)
  show "length (block_sizes n nb) = nb" by (rule block_sizes_length)
  show "\<forall>i<nb. \<forall>j<nb. block_sizes n nb ! i \<le> block_sizes n nb ! j + 1"
    by (simp add: block_sizes_nth)
  show "\<forall>i<nb. block_sizes n nb ! i = n div nb + (if i < n mod nb then 1 else 0)"
    by (simp add: block_sizes_nth)
  show "sum_list (block_sizes n nb) = n" by (rule block_sizes_sum [OF assms])
  show "concat (map (\<lambda>(s, e). [s..<e]) (dranges 0 (block_sizes n nb))) = [0..<n]"
    by (simp add: dranges_concat block_sizes_sum [OF assms])
qed

theorem block_sizes_partition_witness:
  "block_sizes 10 4 = [3, 3, 2, 2]
   \<and> sum_list (block_sizes 10 4) = 10
   \<and> dranges 0 (block_sizes 10 4) = [(0, 3), (3, 6), (6, 8), (8, 10)]
   \<and> concat (map (\<lambda>(s, e). [s..<e]) (dranges 0 (block_sizes 10 4))) = [0..<10]"
proof -
  have bs: "block_sizes 10 4 = [3, 3, 2, 2]" by code_simp
  have "(0::nat) < 4" by simp
  from block_sizes_partition [OF this, of 10] show ?thesis
    by (simp add: bs)
qed

text \<open>
  Claim C5, at an input where it fails. One rank owns 1000 orientations (8000 bytes for
  each frame), the dataset has 3 frames, and the device has 20000 bytes of which the
  dataset takes 4000. The schedule has two blocks, of 2 and 1 frames; the first needs
  16000 bytes, all of the remaining memory and more than the 12800 bytes that
  \<^verbatim>\<open>MEM_THRESH\<close> allows. The number of blocks is rounded up from the total, and the
  block sizes are rounded up again from the number of blocks.
\<close>

theorem block_schedule_exceeds_threshold:
  "block_schedule 0 1000 1 3 20000 4000 = Inr [2, 1]
   \<and> \<not> block_fits (num_rot_p 0 1000 1) 2 20000 4000"
proof -
  have nb: "num_blocks (real (1000 * 3 * 8) / real_of_int (20000 - 4000)) = 2"
    by (simp add: num_blocks_def MEM_THRESH_def)
  have bs: "block_sizes 3 2 = [2, 1]" by code_simp
  have "block_schedule 0 1000 1 3 20000 4000 = Inr [2, 1]"
    using nb bs by (simp add: block_schedule_def mem_frac_def num_rot_p_def)
  moreover have "\<not> block_fits (num_rot_p 0 1000 1) 2 20000 4000"
    by (simp add: block_fits_def num_rot_p_def MEM_THRESH_def)
  ultimately show ?thesis by simp
qed

subsection \<open>Striping of the orientations\<close>

lemma py_range_length:
  "0 < step \<Longrightarrow> length (py_range start stop step) = (stop - start + step - 1) div step"
proof (induction start stop step rule: py_range.induct)
  case (1 start stop step)
  show ?case
  proof (cases "stop \<le> start")
    case True
    then show ?thesis using "1.prems" by (simp add: py_range.simps [of start])
  next
    case False
    have len: "length (py_range start stop step) = Suc ((stop - (start + step) + step - 1) div step)"
      using False 1 by (simp add: py_range.simps [of start])
    show ?thesis
    proof (cases "stop \<le> start + step")
      case True
      have "step \<le> stop - start + step - 1" "stop - start + step - 1 < step + step"
        using True False "1.prems" by arith+
      then have "(stop - start + step - 1) div step = 1"
        by (metis div_nat_eqI mult.commute mult_1 mult_2 nat_mult_1_right numeral_2_eq_2 mult_Suc_right)
      then show ?thesis using len True "1.prems" by simp
    next
      case far: False
      have eq: "stop - start + step - 1 = (stop - (start + step) + step - 1) + step"
        using far "1.prems" by arith
      have "Suc (k div step) = (k + step) div step" for k
        using "1.prems" by (simp only: div_add_self2)
      then have "Suc ((stop - (start + step) + step - 1) div step)
          = ((stop - (start + step) + step - 1) + step) div step" .
      then show ?thesis using len by (simp only: eq)
    qed
  qed
qed

lemma py_range_nth:
  "i < length (py_range start stop step) \<Longrightarrow> py_range start stop step ! i = start + i * step"
proof (induction start stop step arbitrary: i rule: py_range.induct)
  case (1 start stop step)
  then show ?case
    by (cases i) (auto simp: py_range.simps [of start] split: if_splits)
qed

lemma py_range_less:
  "r \<in> set (py_range start stop step) \<Longrightarrow> r < stop"
proof (induction start stop step rule: py_range.induct)
  case (1 start stop step)
  then show ?case
    by (auto simp: py_range.simps [of start] split: if_splits)
qed

lemma py_range_distinct:
  assumes "0 < step"
  shows "distinct (py_range start stop step)"
proof -
  have "i = j" if "i < length (py_range start stop step)" "j < length (py_range start stop step)"
      "py_range start stop step ! i = py_range start stop step ! j" for i j
    using that assms by (simp add: py_range_nth)
  then show ?thesis by (auto simp: distinct_conv_nth)
qed

lemma py_range_mem:
  assumes "0 < step" "start \<le> r" "r < stop" "step dvd (r - start)"
  shows "r \<in> set (py_range start stop step)"
  using assms
proof (induction start stop step rule: py_range.induct)
  case (1 start stop step)
  show ?case
  proof (cases "r = start")
    case True
    then show ?thesis using 1 by (simp add: py_range.simps [of start])
  next
    case False
    then have "0 < r - start" using "1.prems" by simp
    then have le: "step \<le> r - start" using "1.prems" dvd_imp_le by blast
    have "r - start = (r - (start + step)) + step" using le by arith
    then have "step dvd (r - (start + step))" using "1.prems"(4)
      by (simp only: dvd_add_triv_right_iff)
    moreover have "start + step \<le> r" using le "1.prems" by arith
    ultimately have "r \<in> set (py_range (start + step) stop step)"
      using 1 by simp
    then show ?thesis using "1.prems" by (simp add: py_range.simps [of start])
  qed
qed

lemma py_range_dvd:
  "r \<in> set (py_range start stop step) \<Longrightarrow> start \<le> r \<and> step dvd (r - start)"
proof -
  assume "r \<in> set (py_range start stop step)"
  then obtain i where "i < length (py_range start stop step)" "py_range start stop step ! i = r"
    by (auto simp: in_set_conv_nth)
  then have "r = start + i * step" by (simp add: py_range_nth)
  then show ?thesis by simp
qed

lemma mod_eq_iff_dvd_diff:
  fixes r :: nat
  assumes "rk < nproc"
  shows "(rk \<le> r \<and> nproc dvd (r - rk)) = (r mod nproc = rk)"
proof
  assume "rk \<le> r \<and> nproc dvd (r - rk)"
  then obtain q where "r - rk = nproc * q" and "rk \<le> r" by (auto simp: dvd_def)
  then have "r = rk + nproc * q" by arith
  then show "r mod nproc = rk" using assms by simp
next
  assume h: "r mod nproc = rk"
  have "r = nproc * (r div nproc) + r mod nproc" by simp
  then have e: "r = nproc * (r div nproc) + rk" using h by simp
  then have "rk \<le> r" by arith
  moreover have "r - rk = nproc * (r div nproc)" using e by arith
  then have "nproc dvd (r - rk)" by simp
  ultimately show "rk \<le> r \<and> nproc dvd (r - rk)" by simp
qed

lemma owned_rots_set:
  assumes "rk < nproc"
  shows "set (owned_rots rk nrot nproc) = {r. r < nrot \<and> r mod nproc = rk}"
proof (intro set_eqI iffI)
  fix r assume "r \<in> set (owned_rots rk nrot nproc)"
  then have "r < nrot" "rk \<le> r \<and> nproc dvd (r - rk)"
    using py_range_less py_range_dvd by (auto simp: owned_rots_def)
  then show "r \<in> {r. r < nrot \<and> r mod nproc = rk}"
    using mod_eq_iff_dvd_diff [OF assms] by simp
next
  fix r assume "r \<in> {r. r < nrot \<and> r mod nproc = rk}"
  then have "r < nrot" "rk \<le> r \<and> nproc dvd (r - rk)"
    using mod_eq_iff_dvd_diff [OF assms] by simp_all
  then show "r \<in> set (owned_rots rk nrot nproc)"
    using assms by (simp add: owned_rots_def py_range_mem)
qed

lemma owned_rots_nth:
  "i < length (owned_rots rk nrot nproc)
     \<Longrightarrow> owned_rots rk nrot nproc ! i = i * nproc + rk"
  by (simp add: owned_rots_def py_range_nth)

lemma owned_rots_distinct:
  "0 < nproc \<Longrightarrow> distinct (owned_rots rk nrot nproc)"
  by (simp add: owned_rots_def py_range_distinct)

lemma owned_rots_length:
  assumes "rk < nproc"
  shows "length (owned_rots rk nrot nproc) = num_rot_p rk nrot nproc"
proof -
  define q where "q = nrot div nproc"
  define m where "m = nrot mod nproc"
  have n: "nrot = q * nproc + m" and m: "m < nproc"
    using assms by (simp_all add: q_def m_def)
  have pos: "0 < nproc" using assms by simp
  have len: "length (owned_rots rk nrot nproc) = (nrot - rk + nproc - 1) div nproc"
    using pos by (simp add: owned_rots_def py_range_length)
  show ?thesis
  proof (cases "rk < m")
    case True
    have "nrot - rk + nproc - 1 = (m - rk - 1) + (q + 1) * nproc"
      using True m by (simp add: n algebra_simps)
    moreover have "m - rk - 1 < nproc" using m by simp
    ultimately have "(nrot - rk + nproc - 1) div nproc = q + 1"
      by (simp only: div_mult_self1 [OF less_imp_neq [OF pos, symmetric]] div_less)
    then show ?thesis using True len
      by (simp add: num_rot_p_def q_def m_def)
  next
    case False
    show ?thesis
    proof (cases "q = 0")
      case True
      then have "nrot - rk = 0" using False n by simp
      then have "(nrot - rk + nproc - 1) div nproc = 0" using pos by simp
      then show ?thesis using True False len
        by (simp add: num_rot_p_def q_def m_def)
    next
      case qpos: False
      obtain q' where q': "q = Suc q'" using qpos by (cases q) auto
      have "nrot - rk + nproc - 1 = (nproc + m - rk - 1) + q' * nproc + nproc"
        using m False assms by (simp add: n q' algebra_simps)
      moreover have "nproc + m - rk - 1 < nproc" using False assms by simp
      ultimately have "(nrot - rk + nproc - 1) div nproc = q"
        using pos by (simp only: q' div_mult_self1 div_add_self2 div_less)
      then show ?thesis using False len
        by (simp add: num_rot_p_def q_def m_def)
    qed
  qed
qed

lemma astype_i4_id: "0 \<le> v \<Longrightarrow> v < 2 ^ 31 \<Longrightarrow> astype_i4 v = v"
  unfolding astype_i4_def
  by (simp add: sint_sbintrunc' signed_take_bit_int_eq_self)

lemma argmax_less: "xs \<noteq> [] \<Longrightarrow> argmax xs < length xs"
proof -
  assume "xs \<noteq> []"
  then have "Max (set xs) \<in> set xs" by (simp add: Max_in)
  then have "takeWhile (\<lambda>x. x \<noteq> Max (set xs)) xs \<noteq> xs"
    by (metis (mono_tags, lifting) takeWhile_eq_all_conv)
  then show ?thesis unfolding argmax_def
    by (metis length_takeWhile_le le_neq_implies_less takeWhile_eq_take take_all_iff linorder_not_le)
qed

lemma argmax_is_max: "xs \<noteq> [] \<Longrightarrow> xs ! argmax xs = Max (set xs)"
  using argmax_less [of xs] nth_length_takeWhile [of "\<lambda>x. x \<noteq> Max (set xs)" xs]
  by (simp add: argmax_def)

lemma local_rmax_nth:
  assumes "rk < nproc" "nrot \<le> 2 ^ 31"
    and "length p = length (owned_rots rk nrot nproc)" "p \<noteq> []" "d < ncols p"
  shows "local_rmax nproc rk p ! d
           = int (owned_rots rk nrot nproc ! argmax (col p d))"
proof -
  let ?i = "argmax (col p d)"
  have i: "?i < length (owned_rots rk nrot nproc)"
    using assms argmax_less [of "col p d"] by (simp add: col_def)
  then have nth: "owned_rots rk nrot nproc ! ?i = ?i * nproc + rk"
    by (rule owned_rots_nth)
  have "owned_rots rk nrot nproc ! ?i \<in> set (owned_rots rk nrot nproc)"
    using i by simp
  then have "?i * nproc + rk < nrot"
    using nth owned_rots_set [OF assms(1)] by auto
  then have "int (?i * nproc + rk) < int nrot"
    by (simp only: of_nat_less_iff)
  moreover have "int nrot \<le> int (2 ^ 31)"
    using assms(2) by (simp only: of_nat_le_iff)
  ultimately have "int ?i * int nproc + int rk < 2 ^ 31"
    by simp
  then have "astype_i4 (int ?i * int nproc + int rk) = int ?i * int nproc + int rk"
    by (simp add: astype_i4_id)
  then show ?thesis using assms(5) nth
    by (simp add: local_rmax_def argmax0_def)
qed

lemma argmax_last:
  assumes "x < y"
  shows "argmax (replicate n x @ [y]) = n"
proof -
  have "Max (set (replicate n x @ [y])) = y"
    by (rule Max_eqI) (use assms in auto)
  moreover have "takeWhile (\<lambda>v. v \<noteq> y) (replicate n x @ [y]) = replicate n x"
    by (induction n) (use assms in auto)
  ultimately show ?thesis by (simp add: argmax_def)
qed

lemma local_rmax_first:
  "0 < ncols p \<Longrightarrow> local_rmax nproc rk p ! 0 = astype_i4 (int (argmax (col p 0)) * int nproc + int rk)"
  by (simp add: local_rmax_def argmax0_def)

text \<open>
  Claim C7, at an input where it fails. With \<open>2^31 + 1\<close> orientations on two ranks,
  rank 0 owns \<open>2^30 + 1\<close> of them and the last one is the orientation \<open>2^31\<close>. When the
  single frame has its maximum in that last row, the local arg-max row is \<open>2^30\<close> and
  the global index is \<open>2^31\<close>, but the value that \<^verbatim>\<open>.astype('i4')\<close> leaves in \<^verbatim>\<open>rmax_p\<close>
  is \<open>- 2^31\<close>.
\<close>

theorem owned_rots_striping_counterexample:
  "length (replicate (2 ^ 30) [0] @ [[1::real]]) = length (owned_rots 0 (2 ^ 31 + 1) 2)
   \<and> argmax (col (replicate (2 ^ 30) [0] @ [[1]]) 0) = 2 ^ 30
   \<and> int (owned_rots 0 (2 ^ 31 + 1) 2 ! argmax (col (replicate (2 ^ 30) [0] @ [[1]]) 0))
       = 2147483648
   \<and> local_rmax 2 0 (replicate (2 ^ 30) [0] @ [[1]]) ! 0 = - 2147483648"
proof -
  let ?p = "replicate (2 ^ 30) [0] @ [[1::real]]"
  have len: "length (owned_rots 0 (2 ^ 31 + 1) 2) = 2 ^ 30 + 1"
    by (simp add: owned_rots_length num_rot_p_def)
  have c: "col ?p 0 = replicate (2 ^ 30) 0 @ [1]"
    by (simp add: col_def)
  have a: "argmax (col ?p 0) = 2 ^ 30"
    unfolding c by (rule argmax_last) simp
  have "(2 ^ 30 :: nat) < length (owned_rots 0 (2 ^ 31 + 1) 2)"
    unfolding len by simp
  from owned_rots_nth [OF this]
  have n: "owned_rots 0 (2 ^ 31 + 1) 2 ! (2 ^ 30) = 2 ^ 31"
    by simp
  have "replicate (2 ^ 30) [0::real] = [0] # replicate (2 ^ 30 - 1) [0]"
    by (simp add: replicate_Suc [symmetric] del: replicate_Suc)
  then have nc: "ncols ?p = 1"
    by (simp add: ncols_def)
  have w: "astype_i4 2147483648 = - 2147483648"
    by (simp add: astype_i4_def)
  have "0 < ncols ?p" unfolding nc by simp
  from local_rmax_first [OF this, of 2 0]
  have "local_rmax 2 0 ?p ! 0 = astype_i4 (int (2 ^ 30) * int 2 + int 0)"
    unfolding a .
  also have "int (2 ^ 30) * int 2 + int 0 = 2147483648" by simp
  finally have r: "local_rmax 2 0 ?p ! 0 = - 2147483648"
    unfolding w .
  show ?thesis using len a n r by simp
qed

text \<open>
  Claim C7 as amended. For a rank below the number of processes, the orientations the
  rank loops over are exactly those congruent to the rank, and the \<open>i\<close>-th of them is
  \<open>i * nproc + rk\<close>; this holds for one process as for several. With at most \<open>2^31\<close>
  orientations, the local arg-max that \<^verbatim>\<open>_normalize_prob\<close> computes for a frame is the
  orientation of the row where the column of that frame has its maximum, and it
  differs from every value that another rank computes.
\<close>

theorem owned_rots_striping:
  assumes "rk < nproc"
  shows "set (owned_rots rk nrot nproc) = {r. r < nrot \<and> r mod nproc = rk}
       \<and> (\<forall>i<length (owned_rots rk nrot nproc).
             owned_rots rk nrot nproc ! i = i * nproc + rk)
       \<and> (nrot \<le> 2 ^ 31 \<longrightarrow>
            (\<forall>p d. length p = length (owned_rots rk nrot nproc) \<and> p \<noteq> [] \<and> d < ncols p \<longrightarrow>
               local_rmax nproc rk p ! d = int (owned_rots rk nrot nproc ! argmax (col p d))
             \<and> col p d ! argmax (col p d) = Max (set (col p d))
             \<and> (\<forall>rk' p' d'. rk' < nproc \<and> rk' \<noteq> rk
                    \<and> length p' = length (owned_rots rk' nrot nproc) \<and> p' \<noteq> [] \<and> d' < ncols p'
                  \<longrightarrow> local_rmax nproc rk p ! d \<noteq> local_rmax nproc rk' p' ! d')))"
proof (intro conjI impI allI)
  show "set (owned_rots rk nrot nproc) = {r. r < nrot \<and> r mod nproc = rk}"
    by (rule owned_rots_set [OF assms])
  show "owned_rots rk nrot nproc ! i = i * nproc + rk"
    if "i < length (owned_rots rk nrot nproc)" for i
    using that by (rule owned_rots_nth)
next
  fix p :: "real list list" and d
  assume n: "nrot \<le> 2 ^ 31"
    and "length p = length (owned_rots rk nrot nproc) \<and> p \<noteq> [] \<and> d < ncols p"
  then have p: "length p = length (owned_rots rk nrot nproc)" "p \<noteq> []" "d < ncols p"
    by simp_all
  show r1: "local_rmax nproc rk p ! d = int (owned_rots rk nrot nproc ! argmax (col p d))"
    by (rule local_rmax_nth [OF assms n p])
  show "col p d ! argmax (col p d) = Max (set (col p d))"
    using p(2) by (simp add: argmax_is_max col_def)
  fix rk' and p' :: "real list list" and d'
  assume "rk' < nproc \<and> rk' \<noteq> rk
      \<and> length p' = length (owned_rots rk' nrot nproc) \<and> p' \<noteq> [] \<and> d' < ncols p'"
  then have rk': "rk' < nproc" and ne: "rk' \<noteq> rk"
    and p': "length p' = length (owned_rots rk' nrot nproc)" "p' \<noteq> []" "d' < ncols p'"
    by simp_all
  have r2: "local_rmax nproc rk' p' ! d' = int (owned_rots rk' nrot nproc ! argmax (col p' d'))"
    by (rule local_rmax_nth [OF rk' n p'])
  have i1: "argmax (col p d) < length (owned_rots rk nrot nproc)"
    using p argmax_less [of "col p d"] by (simp add: col_def)
  have i2: "argmax (col p' d') < length (owned_rots rk' nrot nproc)"
    using p' argmax_less [of "col p' d'"] by (simp add: col_def)
  have "(owned_rots rk nrot nproc ! argmax (col p d)) mod nproc = rk"
    using owned_rots_nth [OF i1] assms by simp
  moreover have "(owned_rots rk' nrot nproc ! argmax (col p' d')) mod nproc = rk'"
    using owned_rots_nth [OF i2] rk' by simp
  ultimately have "owned_rots rk nrot nproc ! argmax (col p d)
      \<noteq> owned_rots rk' nrot nproc ! argmax (col p' d')"
    using ne by auto
  then show "local_rmax nproc rk p ! d \<noteq> local_rmax nproc rk' p' ! d'"
    using r1 r2 by simp
qed

theorem owned_rots_striping_witness:
  "set (owned_rots 0 8 2) = {r. r < 8 \<and> r mod 2 = 0}
   \<and> owned_rots 0 8 2 ! 3 = 3 * 2 + 0
   \<and> local_rmax 2 0 [[1], [5], [2], [0]] ! 0
       = int (owned_rots 0 8 2 ! argmax (col [[1], [5], [2], [0]] 0))
   \<and> local_rmax 2 0 [[1], [5], [2], [0]] ! 0 \<noteq> local_rmax 2 1 [[3], [1], [4], [1]] ! 0
   \<and> set (owned_rots 0 8 1) = {r. r < 8 \<and> r mod 1 = 0}
   \<and> local_rmax 1 0 [[1], [5], [2], [0], [1], [1], [1], [1]] ! 0
       = int (owned_rots 0 8 1 ! argmax (col [[1], [5], [2], [0], [1], [1], [1], [1]] 0))"
proof -
  have o0: "owned_rots 0 8 2 = [0, 2, 4, 6]" by code_simp
  have o1: "owned_rots 1 8 2 = [1, 3, 5, 7]" by code_simp
  have o: "owned_rots 0 8 1 = [0, 1, 2, 3, 4, 5, 6, 7]" by code_simp
  have n: "(8::nat) \<le> 2 ^ 31" by simp
  have "(0::nat) < 2" by simp
  note t = owned_rots_striping [OF this, of 8]
  note t3 = mp [OF conjunct2 [OF conjunct2 [OF t]] n, rule_format,
      of "[[1], [5], [2], [0]]" 0]
  have h: "length [[1::real], [5], [2], [0]] = length (owned_rots 0 8 2)
      \<and> [[1::real], [5], [2], [0]] \<noteq> [] \<and> 0 < ncols [[1::real], [5], [2], [0]]"
    by (simp add: o0 ncols_def)
  note t4 = t3 [OF h]
  have h': "(1::nat) < 2 \<and> (1::nat) \<noteq> 0
      \<and> length [[3::real], [1], [4], [1]] = length (owned_rots 1 8 2)
      \<and> [[3::real], [1], [4], [1]] \<noteq> [] \<and> 0 < ncols [[3::real], [1], [4], [1]]"
    using o1 by (simp add: ncols_def)
  have a: "set (owned_rots 0 8 2) = {r. r < 8 \<and> r mod 2 = 0}"
    by (rule conjunct1 [OF t])
  have "3 < length (owned_rots 0 8 2)" by (simp add: o0)
  from conjunct1 [OF conjunct2 [OF t], rule_format, OF this]
  have b: "owned_rots 0 8 2 ! 3 = 3 * 2 + 0" .
  have c: "local_rmax 2 0 [[1], [5], [2], [0]] ! 0
       = int (owned_rots 0 8 2 ! argmax (col [[1], [5], [2], [0]] 0))"
    by (rule conjunct1 [OF t4])
  have d: "local_rmax 2 0 [[1], [5], [2], [0]] ! 0 \<noteq> local_rmax 2 1 [[3], [1], [4], [1]] ! 0"
    by (rule conjunct2 [OF conjunct2 [OF t4], rule_format, OF h'])
  have "(0::nat) < 1" by simp
  note s = owned_rots_striping [OF this, of 8]
  have e: "set (owned_rots 0 8 1) = {r. r < 8 \<and> r mod 1 = 0}"
    by (rule conjunct1 [OF s])
  have g: "length [[1::real], [5], [2], [0], [1], [1], [1], [1]] = length (owned_rots 0 8 1)
      \<and> [[1::real], [5], [2], [0], [1], [1], [1], [1]] \<noteq> []
      \<and> 0 < ncols [[1::real], [5], [2], [0], [1], [1], [1], [1]]"
    using o by (simp add: ncols_def)
  have f: "local_rmax 1 0 [[1], [5], [2], [0], [1], [1], [1], [1]] ! 0
       = int (owned_rots 0 8 1 ! argmax (col [[1], [5], [2], [0], [1], [1], [1], [1]] 0))"
    by (rule conjunct1 [OF mp [OF conjunct2 [OF conjunct2 [OF s]] n, rule_format, OF g]])
  show ?thesis
    by (intro conjI) (fact a b c d e f)+
qed

subsection \<open>Kernel launches\<close>

lemma le_bsize: "n \<le> bsize n * 32"
proof -
  have c: "real n / 32 \<le> real_of_int \<lceil>real n / 32\<rceil>" by (rule le_of_int_ceiling)
  have "(0::real) \<le> real n / 32" by simp
  then have "0 \<le> \<lceil>real n / 32\<rceil>" by (simp only: zero_le_ceiling)
  then have "real (nat \<lceil>real n / 32\<rceil>) = real_of_int \<lceil>real n / 32\<rceil>" by simp
  then have "real n / 32 \<le> real (bsize n)" using c by (simp add: bsize_def)
  then have "real n \<le> real (bsize n * 32)" by simp
  then show ?thesis by (simp only: of_nat_le_iff)
qed

lemma fold_id: "(\<And>x. x \<in> set xs \<Longrightarrow> f x = id) \<Longrightarrow> fold f xs s = s"
  by (induction xs arbitrary: s) auto

lemma launch_1d_guarded:
  assumes "\<And>d s. n \<le> d \<Longrightarrow> thr d s = s" and "n \<le> grid * 32"
  shows "launch_1d grid thr s = fold thr [0..<n] s"
proof -
  obtain k where k: "grid * 32 = n + k"
    using assms(2) le_Suc_ex by blast
  have "[0..<grid * 32] = [0..<n] @ [n..<grid * 32]"
    unfolding k by (rule upt_add_eq_append) simp
  moreover have "fold thr [n..<grid * 32] s' = s'" for s'
    by (rule fold_id) (auto simp: assms(1))
  ultimately show ?thesis by (simp add: launch_1d_def)
qed

lemma length_calc_prob_all [simp]:
  "length (calc_prob_all lview ndata on mu o_acc m_acc p_o p_m c_m init sc d prob_r) = length prob_r"
proof -
  have "length (fold (\<lambda>t pr. pr[d := g t pr]) ts pr) = length pr" for g :: "nat \<Rightarrow> real list \<Rightarrow> real" and ts pr
    by (induction ts arbitrary: pr) auto
  then show ?thesis by (simp add: calc_prob_all_def Let_def)
qed

lemma calc_prob_all_other:
  "j \<noteq> d \<Longrightarrow> calc_prob_all lview ndata on mu o_acc m_acc p_o p_m c_m init sc d prob_r ! j = prob_r ! j"
proof -
  assume j: "j \<noteq> d"
  have "fold (\<lambda>t pr. pr[d := g t pr]) ts pr ! j = pr ! j" for g :: "nat \<Rightarrow> real list \<Rightarrow> real" and ts pr
    using j by (induction ts arbitrary: pr) auto
  then show ?thesis using j by (simp add: calc_prob_all_def Let_def)
qed

lemma fold_threads_other:
  assumes "\<And>d s. length (thr d s) = length s"
    and "\<And>d s j. j \<noteq> d \<Longrightarrow> thr d s ! j = s ! j"
    and "j \<notin> set ds"
  shows "fold thr ds s ! j = s ! j"
  using assms(3)
proof (induction ds arbitrary: s)
  case Nil
  show ?case by simp
next
  case (Cons d ds)
  then show ?case using assms(2) [of j d s] by auto
qed

lemma length_atomicAdd [simp]: "length (atomicAdd i v a) = length a"
  by (simp add: atomicAdd_def)

lemma length_fold_atomicAdd [simp]:
  "length (fold (\<lambda>t. atomicAdd (f t) (g t)) ts a) = length a"
  by (induction ts arbitrary: a) auto

lemma length_merge_all [simp]:
  "length (merge_all prob_r ndata on mu o_acc m_acc p_o p_m c_m d view) = length view"
  by (simp add: merge_all_def Let_def)

text \<open>
  Claim C10. A thread of \<^verbatim>\<open>calc_prob_all\<close> or \<^verbatim>\<open>merge_all\<close> whose index is not below
  \<open>ndata\<close> leaves its array as it was. So the launch on the rounded-up grid of
  \<open>ceil(ndata/32) * 32\<close> threads does what the threads \<open>0, \<dots>, ndata - 1\<close> alone do:
  \<^verbatim>\<open>calc_prob_all\<close> leaves every entry of \<^verbatim>\<open>prob_r\<close> from index \<open>ndata\<close> on unchanged,
  and \<^verbatim>\<open>merge_all\<close> scatters the photons of the frames below \<open>ndata\<close> only.
\<close>

theorem launch_rounded_grid:
  "(\<forall>d\<ge>ndata. calc_prob_all lview ndata on mu o_acc m_acc p_o p_m c_m init sc d prob_r = prob_r
           \<and> merge_all prob_r ndata on mu o_acc m_acc p_o p_m c_m d view = view)
   \<and> launch_1d (bsize ndata) (calc_prob_all lview ndata on mu o_acc m_acc p_o p_m c_m init sc) prob_r
       = fold (calc_prob_all lview ndata on mu o_acc m_acc p_o p_m c_m init sc) [0..<ndata] prob_r
   \<and> (\<forall>j\<ge>ndata.
         launch_1d (bsize ndata) (calc_prob_all lview ndata on mu o_acc m_acc p_o p_m c_m init sc) prob_r ! j
           = prob_r ! j)
   \<and> length (launch_1d (bsize ndata) (calc_prob_all lview ndata on mu o_acc m_acc p_o p_m c_m init sc) prob_r)
       = length prob_r
   \<and> launch_1d (bsize ndata) (merge_all prob_r ndata on mu o_acc m_acc p_o p_m c_m) view
       = fold (merge_all prob_r ndata on mu o_acc m_acc p_o p_m c_m) [0..<ndata] view"
proof -
  let ?cp = "calc_prob_all lview ndata on mu o_acc m_acc p_o p_m c_m init sc"
  let ?ma = "merge_all prob_r ndata on mu o_acc m_acc p_o p_m c_m"
  have cp_skip: "?cp d s = s" if "ndata \<le> d" for d s
    using that by (simp add: calc_prob_all_def)
  have ma_skip: "?ma d s = s" if "ndata \<le> d" for d s
    using that by (simp add: merge_all_def)
  have cp: "launch_1d (bsize ndata) ?cp prob_r = fold ?cp [0..<ndata] prob_r"
    by (rule launch_1d_guarded [OF cp_skip le_bsize])
  have ma: "launch_1d (bsize ndata) ?ma view = fold ?ma [0..<ndata] view"
    by (rule launch_1d_guarded [OF ma_skip le_bsize])
  have other: "fold ?cp [0..<ndata] prob_r ! j = prob_r ! j" if "ndata \<le> j" for j
    by (rule fold_threads_other) (use that in \<open>auto simp: calc_prob_all_other\<close>)
  have len: "length (fold ?cp ds s) = length s" for ds s
    by (induction ds arbitrary: s) auto
  show ?thesis
    using cp ma other len by (simp add: cp_skip ma_skip)
qed

theorem launch_rounded_grid_witness:
  "launch_1d (bsize 2) (calc_prob_all [1, 2, 3] 2 [1, 0] [0, 1] [0, 1] [0, 0] [2] [1] [3] (- 6) [1, 1])
      [7, 7, 7] ! 2 = 7
   \<and> launch_1d (bsize 2) (calc_prob_all [1, 2, 3] 2 [1, 0] [0, 1] [0, 1] [0, 0] [2] [1] [3] (- 6) [1, 1])
      [7, 7, 7] = [- 3, 0, 7]"
proof -
  let ?cp = "calc_prob_all [1, 2, 3] 2 [1, 0] [0, 1] [0, 1] [0, 0] [2] [1] [3] (- 6) [1, 1]"
  note t = launch_rounded_grid [of 2 "[1, 2, 3]" "[1, 0]" "[0, 1]" "[0, 1]" "[0, 0]" "[2]" "[1]" "[3]"
      "- 6" "[1, 1]" "[7, 7, 7]" "[]"]
  have a: "launch_1d (bsize 2) ?cp [7, 7, 7] ! 2 = [7, 7, 7] ! 2"
    using conjunct1 [OF conjunct2 [OF conjunct2 [OF t]]] by simp
  have b: "launch_1d (bsize 2) ?cp [7, 7, 7] = fold ?cp [0..<2] [7, 7, 7]"
    using conjunct1 [OF conjunct2 [OF t]] by simp
  have c: "fold ?cp [0..<2] [7, 7, 7] = [- 3, 0, 7]"
    by (simp add: calc_prob_all_def upt_rec numeral_2_eq_2)
  show ?thesis using a b c by simp
qed

subsection \<open>The M-step skips rows without responsibility\<close>

lemma fold_skip_filter:
  assumes "\<And>x s. \<not> P x \<Longrightarrow> f x s = s"
  shows "fold f xs s = fold f (filter P xs) s"
  using assms by (induction xs arbitrary: s) auto

text \<open>
  When the entries of row \<open>i\<close> of the probability buffer add up to exactly zero, the
  body of the loop of \<^verbatim>\<open>_update_model\<close> returns the view buffers and both accumulators as
  it got them, in either engine; the division by \<^verbatim>\<open>p_norm[i]\<close> is in the other branch.
  The whole loop is therefore the loop over the rows whose sum is not zero. In
  \<^verbatim>\<open>src/emc.py\<close> a row holds one entry for each frame. In \<^verbatim>\<open>src/cupadman/emc.py\<close> a row
  holds as many entries as the largest block has frames.
\<close>

lemma update_model_skips_zero_rows:
  assumes "asum1 (prob self) ! i = 0"
  shows "emc_update_model_step self (asum1 (prob self)) (i, r) (view, dmodel, dmweights)
           = (view, dmodel, dmweights)
       \<and> cupadman_update_model_step slice_merge3 self (asum1 (prob self)) drange (i, r)
             (views, dmodel, dmweights)
           = (views, dmodel, dmweights)
       \<and> emc_update_model self view dmodel dmweights
           = fold (emc_update_model_step self (asum1 (prob self)))
               (filter (\<lambda>(j, q). asum1 (prob self) ! j \<noteq> 0)
                  (enumerate 0 (owned_rots (rank self) (num_rot self) (num_proc self))))
               (view, replicate (length dmodel) 0, replicate (length dmweights) 0)
       \<and> cupadman_update_model slice_merge3 self views dmodel dmweights drange
           = fold (cupadman_update_model_step slice_merge3 self (asum1 (prob self)) drange)
               (filter (\<lambda>(j, q). asum1 (prob self) ! j \<noteq> 0)
                  (enumerate 0 (owned_rots (rank self) (num_rot self) (num_proc self))))
               (views, replicate (length dmodel) 0, replicate (length dmweights) 0)"
proof (intro conjI)
  show "emc_update_model_step self (asum1 (prob self)) (i, r) (view, dmodel, dmweights)
           = (view, dmodel, dmweights)"
    using assms by (simp add: emc_update_model_step_def)
  show "cupadman_update_model_step slice_merge3 self (asum1 (prob self)) drange (i, r)
             (views, dmodel, dmweights)
           = (views, dmodel, dmweights)"
    using assms by (simp add: cupadman_update_model_step_def)
  show "emc_update_model self view dmodel dmweights
           = fold (emc_update_model_step self (asum1 (prob self)))
               (filter (\<lambda>(j, q). asum1 (prob self) ! j \<noteq> 0)
                  (enumerate 0 (owned_rots (rank self) (num_rot self) (num_proc self))))
               (view, replicate (length dmodel) 0, replicate (length dmweights) 0)"
    unfolding emc_update_model_def Let_def
    by (rule fold_skip_filter) (auto simp: emc_update_model_step_def)
  show "cupadman_update_model slice_merge3 self views dmodel dmweights drange
           = fold (cupadman_update_model_step slice_merge3 self (asum1 (prob self)) drange)
               (filter (\<lambda>(j, q). asum1 (prob self) ! j \<noteq> 0)
                  (enumerate 0 (owned_rots (rank self) (num_rot self) (num_proc self))))
               (views, replicate (length dmodel) 0, replicate (length dmweights) 0)"
    unfolding cupadman_update_model_def Let_def
    by (rule fold_skip_filter) (auto simp: cupadman_update_model_step_def)
qed

lemma update_model_skips_zero_rows_example:
  "emc_update_model_step (example_emc\<lparr>prob := [[0]]\<rparr>) (asum1 [[0]]) (0, 0)
       ([5, 5, 5, 5], [1, 2, 3, 4], [1, 1, 1, 1])
     = ([5, 5, 5, 5], [1, 2, 3, 4], [1, 1, 1, 1])
   \<and> emc_update_model (example_emc\<lparr>prob := [[0]]\<rparr>) [5, 5, 5, 5] [1, 2, 3, 4] [1, 1, 1, 1]
     = ([5, 5, 5, 5], [0, 0, 0, 0], [0, 0, 0, 0])"
proof -
  have z: "asum1 (prob (example_emc\<lparr>prob := [[0]]\<rparr>)) ! 0 = 0"
    by (simp add: asum1_def)
  have "owned_rots 0 1 1 = [0]"
    by code_simp
  then have o: "owned_rots 0 (Suc 0) (Suc 0) = [0]"
    by simp
  note t = update_model_skips_zero_rows [OF z, of 0 "[5, 5, 5, 5]" "[1, 2, 3, 4]" "[1, 1, 1, 1]"
      undefined undefined "[]"]
  have a: "emc_update_model_step (example_emc\<lparr>prob := [[0]]\<rparr>) (asum1 [[0]]) (0, 0)
       ([5, 5, 5, 5], [1, 2, 3, 4], [1, 1, 1, 1])
     = ([5, 5, 5, 5], [1, 2, 3, 4], [1, 1, 1, 1])"
    using conjunct1 [OF t] by simp
  have b: "emc_update_model (example_emc\<lparr>prob := [[0]]\<rparr>) [5, 5, 5, 5] [1, 2, 3, 4] [1, 1, 1, 1]
     = ([5, 5, 5, 5], [0, 0, 0, 0], [0, 0, 0, 0])"
    using conjunct1 [OF conjunct2 [OF conjunct2 [OF t]]]
    by (simp add: example_emc_def o enumerate_eq_zip asum1_def)
  show ?thesis using a b by simp
qed

subsection \<open>Normalization of the probabilities\<close>

text \<open>
  The sum, over the rows of all ranks, of the entries for frame \<open>d\<close>; and the shape
  condition under which the ranks meet in \<^verbatim>\<open>_normalize_prob\<close>: at least one rank, every
  rank with at least one row, every row with \<open>n\<close> entries.
\<close>

definition frame_total :: "real list list list \<Rightarrow> nat \<Rightarrow> real" where
  "frame_total probs d = sum_list (map (\<lambda>p. sum_list (col p d)) probs)"

definition prob_shapes :: "emc list \<Rightarrow> nat \<Rightarrow> bool" where
  "prob_shapes ranks n \<longleftrightarrow>
     ranks \<noteq> [] \<and> list_all (\<lambda>self. prob self \<noteq> [] \<and> list_all (\<lambda>row. length row = n) (prob self)) ranks"

lemma length_col [simp]: "length (col a d) = length a"
  by (simp add: col_def)

lemma ncols_Cons [simp]: "ncols (row # a) = length row"
  by (simp add: ncols_def)

lemma ncols_eq:
  assumes "a \<noteq> []" "list_all (\<lambda>row. length row = n) a"
  shows "ncols a = n"
  using assms by (cases a) auto

lemma ncols_map:
  assumes "xs \<noteq> []" "list_all (\<lambda>x. length (f x) = n) xs"
  shows "ncols (map f xs) = n"
  using assms by (cases xs) auto

lemma sum_list_divide: "sum_list (map (\<lambda>x. f x / c) xs) = sum_list (map f xs) / (c::real)"
  by (induction xs) (simp_all add: add_divide_distrib)

lemma sum_list_pos_real:
  assumes "xs \<noteq> []" "\<And>x. x \<in> set xs \<Longrightarrow> 0 < f x"
  shows "0 < sum_list (map f xs :: real list)"
  using assms
proof (induction xs)
  case Nil
  then show ?case by simp
next
  case (Cons x xs)
  show ?case
  proof (cases "xs = []")
    case True
    then show ?thesis using Cons.prems by simp
  next
    case False
    then have "0 < sum_list (map f xs)" using Cons by simp
    moreover have "0 < f x" using Cons.prems by simp
    ultimately show ?thesis by simp
  qed
qed

lemma normalize_sums_Inr:
  assumes "list_all (\<lambda>self. prob self \<noteq> []) ranks"
  shows "normalize_sums ranks =
     Inr (map (\<lambda>self. divide_rows (exp_subtract (prob self) (Allreduce_MAX (map (\<lambda>self. amax0 (prob self)) ranks)))
            (Allreduce_SUM (map (\<lambda>self. asum0 (exp_subtract (prob self)
                (Allreduce_MAX (map (\<lambda>self. amax0 (prob self)) ranks)))) ranks))) ranks,
          Allreduce_MAX (map2 (\<lambda>r m. invalidate_rmax r m (Allreduce_MAX (map (\<lambda>self. amax0 (prob self)) ranks)))
            (map (\<lambda>self. local_rmax (num_proc self) (rank self) (prob self)) ranks)
            (map (\<lambda>self. amax0 (prob self)) ranks)))"
proof -
  have "\<not> list_ex (\<lambda>self. prob self = []) ranks"
    using assms by (auto simp: list_ex_iff list_all_iff)
  then show ?thesis
    by (simp add: normalize_sums_def Let_def comp_def)
qed

lemma exp_subtract_col:
  assumes "list_all (\<lambda>row. length row = n) p" "length mx = n" "d < n"
  shows "col (exp_subtract p mx) d = map (\<lambda>row. exp (row ! d - mx ! d)) p"
  using assms by (auto simp: col_def exp_subtract_def list_all_iff)

lemma exp_subtract_rows:
  assumes "list_all (\<lambda>row. length row = n) p" "length mx = n"
  shows "list_all (\<lambda>row. length row = n) (exp_subtract p mx)"
  using assms by (auto simp: exp_subtract_def list_all_iff)

lemma divide_rows_col:
  assumes "list_all (\<lambda>row. length row = n) p" "length ps = n" "d < n"
  shows "col (divide_rows p ps) d = map (\<lambda>row. row ! d / ps ! d) p"
  using assms by (auto simp: col_def divide_rows_def list_all_iff)

lemma divide_rows_rows:
  assumes "list_all (\<lambda>row. length row = n) p" "length ps = n"
  shows "list_all (\<lambda>row. length row = n) (divide_rows p ps)"
  using assms by (auto simp: divide_rows_def list_all_iff)

lemma length_Allreduce_MAX [simp]: "length (Allreduce_MAX bufs) = ncols bufs"
  by (simp add: Allreduce_MAX_def)

lemma length_Allreduce_SUM [simp]: "length (Allreduce_SUM bufs) = ncols bufs"
  by (simp add: Allreduce_SUM_def)

lemma length_amax0 [simp]: "length (amax0 a) = ncols a"
  by (simp add: amax0_def)

lemma length_asum0 [simp]: "length (asum0 a) = ncols a"
  by (simp add: asum0_def)

text \<open>The divided matrices, entry by entry, under the shape condition.\<close>

lemma normalize_sums_shape:
  assumes "prob_shapes ranks n"
  defines "mx \<equiv> Allreduce_MAX (map (\<lambda>self. amax0 (prob self)) ranks)"
  defines "ps \<equiv> Allreduce_SUM (map (\<lambda>self. asum0 (exp_subtract (prob self) mx)) ranks)"
  shows "length mx = n" and "length ps = n"
    and "d < n \<Longrightarrow> ps ! d = sum_list (map (\<lambda>self. sum_list (map (\<lambda>row. exp (row ! d - mx ! d)) (prob self))) ranks)"
    and "d < n \<Longrightarrow> 0 < ps ! d"
proof -
  have ne: "ranks \<noteq> []" and each: "\<And>self. self \<in> set ranks \<Longrightarrow> prob self \<noteq> []"
    and rows: "\<And>self. self \<in> set ranks \<Longrightarrow> list_all (\<lambda>row. length row = n) (prob self)"
    using assms(1) by (auto simp: prob_shapes_def list_all_iff)
  have nc: "ncols (prob self) = n" if "self \<in> set ranks" for self
    using ncols_eq [OF each [OF that] rows [OF that]] .
  show mx: "length mx = n"
    unfolding mx_def using ne nc by (simp add: ncols_map list_all_iff)
  have nce: "ncols (exp_subtract (prob self) mx) = n" if "self \<in> set ranks" for self
    using each [OF that] exp_subtract_rows [OF rows [OF that] mx]
    by (intro ncols_eq) (auto simp: exp_subtract_def)
  show ps: "length ps = n"
    unfolding ps_def using ne nce by (simp add: ncols_map list_all_iff)
  have nc2: "ncols (map (\<lambda>self. asum0 (exp_subtract (prob self) mx)) ranks) = n"
    using ne nce by (simp add: ncols_map list_all_iff)
  show eq: "ps ! d = sum_list (map (\<lambda>self. sum_list (map (\<lambda>row. exp (row ! d - mx ! d)) (prob self))) ranks)"
    if d: "d < n"
  proof -
    have "ps ! d = sum_list (map (\<lambda>self. asum0 (exp_subtract (prob self) mx) ! d) ranks)"
      using d nc2 by (simp add: ps_def Allreduce_SUM_def col_def comp_def)
    also have "\<dots> = sum_list (map (\<lambda>self. sum_list (map (\<lambda>row. exp (row ! d - mx ! d)) (prob self))) ranks)"
    proof (rule arg_cong [where f = sum_list], rule map_cong [OF refl])
      fix self assume s: "self \<in> set ranks"
      show "asum0 (exp_subtract (prob self) mx) ! d = sum_list (map (\<lambda>row. exp (row ! d - mx ! d)) (prob self))"
        using d nce [OF s] exp_subtract_col [OF rows [OF s] mx d]
        by (simp add: asum0_def)
    qed
    finally show ?thesis .
  qed
  show "0 < ps ! d" if d: "d < n"
    unfolding eq [OF d]
    by (rule sum_list_pos_real [OF ne]) (rule sum_list_pos_real, auto simp: each)
qed

lemma normalize_sums_total:
  assumes "prob_shapes ranks n" "d < n"
  shows "frame_total (fst (projr (normalize_sums ranks))) d = 1"
proof -
  define mx where "mx = Allreduce_MAX (map (\<lambda>self. amax0 (prob self)) ranks)"
  define ps where "ps = Allreduce_SUM (map (\<lambda>self. asum0 (exp_subtract (prob self) mx)) ranks)"
  note sh = normalize_sums_shape [OF assms(1), folded mx_def, folded ps_def]
  have rows: "\<And>self. self \<in> set ranks \<Longrightarrow> list_all (\<lambda>row. length row = n) (prob self)"
    and all: "list_all (\<lambda>self. prob self \<noteq> []) ranks"
    using assms(1) by (auto simp: prob_shapes_def list_all_iff)
  have "fst (projr (normalize_sums ranks)) = map (\<lambda>self. divide_rows (exp_subtract (prob self) mx) ps) ranks"
    by (simp add: normalize_sums_Inr [OF all] mx_def ps_def)
  then have "frame_total (fst (projr (normalize_sums ranks))) d
      = sum_list (map (\<lambda>self. sum_list (col (divide_rows (exp_subtract (prob self) mx) ps) d)) ranks)"
    by (simp add: frame_total_def comp_def)
  also have "\<dots> = sum_list (map (\<lambda>self. sum_list (map (\<lambda>row. exp (row ! d - mx ! d)) (prob self)) / ps ! d) ranks)"
  proof (rule arg_cong [where f = sum_list], rule map_cong [OF refl])
    fix self assume s: "self \<in> set ranks"
    have "col (divide_rows (exp_subtract (prob self) mx) ps) d
        = map (\<lambda>row. row ! d / ps ! d) (exp_subtract (prob self) mx)"
      by (rule divide_rows_col [OF exp_subtract_rows [OF rows [OF s] sh(1)] sh(2) assms(2)])
    also have "\<dots> = map (\<lambda>v. v / ps ! d) (col (exp_subtract (prob self) mx) d)"
      by (simp add: col_def)
    also have "\<dots> = map (\<lambda>row. exp (row ! d - mx ! d) / ps ! d) (prob self)"
      by (simp add: exp_subtract_col [OF rows [OF s] sh(1) assms(2)] comp_def)
    finally show "sum_list (col (divide_rows (exp_subtract (prob self) mx) ps) d)
        = sum_list (map (\<lambda>row. exp (row ! d - mx ! d)) (prob self)) / ps ! d"
      by (simp add: sum_list_divide)
  qed
  also have "\<dots> = ps ! d / ps ! d"
    by (simp add: sum_list_divide sh(3) [OF assms(2)])
  also have "\<dots> = 1"
    using sh(4) [OF assms(2)] by simp
  finally show ?thesis .
qed

lemma normalize_sums_cols:
  assumes "prob_shapes ranks n" "d < n"
  defines "mx \<equiv> Allreduce_MAX (map (\<lambda>self. amax0 (prob self)) ranks)"
  defines "ps \<equiv> Allreduce_SUM (map (\<lambda>self. asum0 (exp_subtract (prob self) mx)) ranks)"
  shows "\<exists>rm. normalize_sums ranks
            = Inr (map (\<lambda>self. divide_rows (exp_subtract (prob self) mx) ps) ranks, rm)"
    and "self \<in> set ranks \<Longrightarrow>
           list_all (\<lambda>row. length row = n) (divide_rows (exp_subtract (prob self) mx) ps)"
    and "self \<in> set ranks \<Longrightarrow>
           col (divide_rows (exp_subtract (prob self) mx) ps) d
             = map (\<lambda>row. exp (row ! d - mx ! d) / ps ! d) (prob self)"
    and "0 < ps ! d"
proof -
  note sh = normalize_sums_shape [OF assms(1), folded mx_def, folded ps_def]
  have rows: "\<And>self. self \<in> set ranks \<Longrightarrow> list_all (\<lambda>row. length row = n) (prob self)"
    and all: "list_all (\<lambda>self. prob self \<noteq> []) ranks"
    using assms(1) by (auto simp: prob_shapes_def list_all_iff)
  show "\<exists>rm. normalize_sums ranks
            = Inr (map (\<lambda>self. divide_rows (exp_subtract (prob self) mx) ps) ranks, rm)"
    by (simp add: normalize_sums_Inr [OF all] mx_def ps_def)
  show "list_all (\<lambda>row. length row = n) (divide_rows (exp_subtract (prob self) mx) ps)"
    if s: "self \<in> set ranks"
    by (rule divide_rows_rows [OF exp_subtract_rows [OF rows [OF s] sh(1)] sh(2)])
  show "col (divide_rows (exp_subtract (prob self) mx) ps) d
             = map (\<lambda>row. exp (row ! d - mx ! d) / ps ! d) (prob self)"
    if s: "self \<in> set ranks"
  proof -
    have "col (divide_rows (exp_subtract (prob self) mx) ps) d
        = map (\<lambda>row. row ! d / ps ! d) (exp_subtract (prob self) mx)"
      by (rule divide_rows_col [OF exp_subtract_rows [OF rows [OF s] sh(1)] sh(2) assms(2)])
    also have "\<dots> = map (\<lambda>v. v / ps ! d) (col (exp_subtract (prob self) mx) d)"
      by (simp add: col_def)
    also have "\<dots> = map (\<lambda>row. exp (row ! d - mx ! d) / ps ! d) (prob self)"
      by (simp add: exp_subtract_col [OF rows [OF s] sh(1) assms(2)] comp_def)
    finally show ?thesis .
  qed
  show "0 < ps ! d" by (rule sh(4) [OF assms(2)])
qed

lemma col_map_map:
  assumes "list_all (\<lambda>row. length row = n) p" "d < n"
  shows "col (map (map g) p) d = map g (col p d)"
  using assms by (auto simp: col_def list_all_iff)

lemma map_prob_update:
  "length probs = length ranks \<Longrightarrow>
     map prob (map2 (\<lambda>self p. self\<lparr>prob := f p, rmax := r\<rparr>) ranks probs) = map f probs"
proof (induction ranks arbitrary: probs)
  case Nil
  then show ?case by simp
next
  case (Cons a ranks)
  then show ?case by (cases probs) auto
qed

lemma sum_list_mono_real:
  "(\<And>x. x \<in> set xs \<Longrightarrow> f x \<le> (g x :: real)) \<Longrightarrow> sum_list (map f xs) \<le> sum_list (map g xs)"
  by (induction xs) (auto intro: add_mono)

lemma exp_minus_40: "exp (- 40 :: real) < 1 / 10 ^ 12"
proof -
  have "(2::real) \<le> exp 1" using exp_ge_add_one_self [of "1::real"] by simp
  then have "(2::real) ^ 40 \<le> exp 1 ^ 40" by (rule power_mono) simp
  also have "\<dots> = exp (40::real)" using exp_of_nat_mult [of 40 "1::real"] by simp
  finally have "(10::real) ^ 12 < exp 40" by simp
  then have "inverse (exp (40::real)) < inverse (10 ^ 12)" by (simp add: field_simps)
  then show ?thesis by (simp add: exp_minus inverse_eq_divide)
qed

lemma example_normalize_sums:
  "normalize_sums [example_emc\<lparr>num_rot := 2, prob := [[0], [- 40]]\<rparr>]
     = Inr ([[[1 / (1 + exp (- 40))], [exp (- 40) / (1 + exp (- 40))]]], [0])"
  by (simp add: normalize_sums_def Let_def amax0_def col_def Allreduce_MAX_def
      Allreduce_SUM_def exp_subtract_def divide_rows_def asum0_def local_rmax_def argmax0_def
      argmax_def invalidate_rmax_def astype_i4_def example_emc_def)

lemma small_ratio:
  fixes e :: real
  assumes "0 < e" "e < 1 / 10 ^ 12"
  shows "e / (1 + e) < 1 / 10 ^ 12" and "1 - 1 / 10 ^ 12 < 1 / (1 + e)"
proof -
  have "e / (1 + e) \<le> e / 1"
    by (rule frac_le) (use assms in simp_all)
  then have "e / (1 + e) \<le> e" by simp
  then show small: "e / (1 + e) < 1 / 10 ^ 12" using assms(2) by (rule le_less_trans)
  have "(1 + e) / (1 + e) = 1" using assms(1) by simp
  then have "1 / (1 + e) + e / (1 + e) = 1" by (simp only: add_divide_distrib)
  then show "1 - 1 / 10 ^ 12 < 1 / (1 + e)" using small by linarith
qed

lemma example_small: "exp (- 40) / (1 + exp (- 40)) < (1 / 10 ^ 12 :: real)"
  by (rule small_ratio(1) [OF _ exp_minus_40]) simp

lemma example_large: "1 - 1 / 10 ^ 12 < 1 / (1 + exp (- 40 :: real))"
  by (rule small_ratio(2) [OF _ exp_minus_40]) simp

lemma P_MIN_bounds: "1 / 10 ^ 12 < P_MIN" "P_MIN < 1 - 1 / 10 ^ 12" "9 / 10 ^ 7 + 1 / 10 ^ 12 < P_MIN"
  by (simp_all add: P_MIN_def)

text \<open>
  Claim C1, at an input where it fails. One rank holds two orientations and one frame,
  with log-probabilities 0 and -40. After the division the two entries add up to 1, the
  second being below \<^verbatim>\<open>P_MIN\<close>. The clip of \<^verbatim>\<open>src/cupadman/emc.py\<close> raises it to
  \<^verbatim>\<open>P_MIN\<close>, and the sum for the frame ends above \<open>1 + 9 / 10^7\<close>. Every entry that the
  clip raises adds up to \<^verbatim>\<open>P_MIN\<close> to the sum.
\<close>

theorem normalize_prob_total_counterexample:
  "cupadman_normalize_prob [example_emc\<lparr>num_rot := 2, prob := [[0], [- 40]]\<rparr>]
     = Inr [example_emc\<lparr>num_rot := 2, prob := [[1 / (1 + exp (- 40))], [P_MIN]], rmax := [0]\<rparr>]
   \<and> 1 + 9 / 10 ^ 7
       < frame_total (map prob (projr (cupadman_normalize_prob
           [example_emc\<lparr>num_rot := 2, prob := [[0], [- 40]]\<rparr>]))) 0"
proof -
  have a: "max (exp (- 40) / (1 + exp (- 40))) P_MIN = P_MIN"
    by (rule max_absorb2) (use example_small P_MIN_bounds in linarith)
  have b: "max (1 / (1 + exp (- 40))) P_MIN = 1 / (1 + exp (- 40))"
    by (rule max_absorb1) (use example_large P_MIN_bounds in linarith)
  have r: "cupadman_normalize_prob [example_emc\<lparr>num_rot := 2, prob := [[0], [- 40]]\<rparr>]
     = Inr [example_emc\<lparr>num_rot := 2, prob := [[1 / (1 + exp (- 40))], [P_MIN]], rmax := [0]\<rparr>]"
    by (simp add: cupadman_normalize_prob_def example_normalize_sums a b)
  have "1 + 9 / 10 ^ 7 < 1 / (1 + exp (- 40 :: real)) + P_MIN"
    using example_large P_MIN_bounds by linarith
  then show ?thesis
    by (simp add: r frame_total_def col_def)
qed

text \<open>
  Claim C1 as amended. When every rank has at least one row and all rows have \<open>n\<close>
  entries, the ranks leave \<^verbatim>\<open>_normalize_prob\<close> without an error, and for every frame
  \<open>d < n\<close>: right after the division by the global sum, the entries for the frame over
  all rows of all ranks add up to 1; after the clip of \<^verbatim>\<open>src/cupadman/emc.py\<close> they add
  up to at least 1 and at most 1 plus \<^verbatim>\<open>P_MIN\<close> for each row; after the zeroing of
  \<^verbatim>\<open>src/emc.py\<close> they add up to at most 1.
\<close>

theorem normalize_prob_total:
  assumes "prob_shapes ranks n" "d < n"
  shows "\<exists>probs rm res res'.
           normalize_sums ranks = Inr (probs, rm) \<and> frame_total probs d = 1
         \<and> cupadman_normalize_prob ranks = Inr res
         \<and> 1 \<le> frame_total (map prob res) d
         \<and> frame_total (map prob res) d
             \<le> 1 + P_MIN * real (sum_list (map (\<lambda>self. length (prob self)) ranks))
         \<and> emc_normalize_prob ranks = Inr res'
         \<and> frame_total (map prob res') d \<le> 1"
proof -
  define mx where "mx = Allreduce_MAX (map (\<lambda>self. amax0 (prob self)) ranks)"
  define ps where "ps = Allreduce_SUM (map (\<lambda>self. asum0 (exp_subtract (prob self) mx)) ranks)"
  define dv where "dv self = divide_rows (exp_subtract (prob self) mx) ps" for self :: emc
  note nc = normalize_sums_cols [OF assms, folded mx_def, folded ps_def, folded dv_def]
  obtain rm where ns: "normalize_sums ranks = Inr (map dv ranks, rm)"
    using nc(1) by blast
  have tot: "frame_total (map dv ranks) d = 1"
    using normalize_sums_total [OF assms] by (simp add: ns)
  have nonneg: "0 \<le> v" if s: "self \<in> set ranks" and v: "v \<in> set (col (dv self) d)" for self v
  proof -
    obtain row where "v = exp (row ! d - mx ! d) / ps ! d"
      using v unfolding nc(3) [OF s] by auto
    then show ?thesis using nc(4) by simp
  qed
  define res where "res = map2 (\<lambda>self p. self\<lparr>prob := map (map (\<lambda>v. max v P_MIN)) p, rmax := rm\<rparr>)
      ranks (map dv ranks)"
  define res' where "res' = map2 (\<lambda>self p. self\<lparr>prob := map (map (\<lambda>v. if v < P_MIN then 0 else v)) p,
      rmax := rm\<rparr>) ranks (map dv ranks)"
  have cu: "cupadman_normalize_prob ranks = Inr res"
    by (simp add: cupadman_normalize_prob_def ns res_def)
  have em: "emc_normalize_prob ranks = Inr res'"
    by (simp add: emc_normalize_prob_def ns res'_def)
  have "map prob res = map (map (map (\<lambda>v. max v P_MIN))) (map dv ranks)"
    unfolding res_def by (rule map_prob_update) simp
  then have pres: "map prob res = map (\<lambda>self. map (map (\<lambda>v. max v P_MIN)) (dv self)) ranks"
    by (simp add: comp_def)
  have "map prob res' = map (map (map (\<lambda>v. if v < P_MIN then 0 else v))) (map dv ranks)"
    unfolding res'_def by (rule map_prob_update) simp
  then have pres': "map prob res' = map (\<lambda>self. map (map (\<lambda>v. if v < P_MIN then 0 else v)) (dv self)) ranks"
    by (simp add: comp_def)
  have ft: "frame_total (map (\<lambda>self. map (map g) (dv self)) ranks) d
      = sum_list (map (\<lambda>self. sum_list (map g (col (dv self) d))) ranks)" for g
    unfolding frame_total_def map_map comp_def
    by (rule arg_cong [where f = sum_list], rule map_cong [OF refl])
       (simp add: col_map_map [OF nc(2) assms(2)])
  have ft0: "frame_total (map dv ranks) d = sum_list (map (\<lambda>self. sum_list (col (dv self) d)) ranks)"
    by (simp add: frame_total_def comp_def)
  have lower: "1 \<le> frame_total (map prob res) d"
  proof -
    have "sum_list (map (\<lambda>self. sum_list (col (dv self) d)) ranks)
        \<le> sum_list (map (\<lambda>self. sum_list (map (\<lambda>v. max v P_MIN) (col (dv self) d))) ranks)"
      by (intro sum_list_mono_real) (use sum_list_mono_real [of _ "\<lambda>v. v" "\<lambda>v. max v P_MIN"] in auto)
    then show ?thesis using tot by (simp add: pres ft ft0)
  qed
  have upper: "frame_total (map prob res) d
             \<le> 1 + P_MIN * real (sum_list (map (\<lambda>self. length (prob self)) ranks))"
  proof -
    have row: "sum_list (map (\<lambda>v. max v P_MIN) xs) \<le> sum_list xs + P_MIN * real (length xs)"
      if "\<And>v. v \<in> set xs \<Longrightarrow> 0 \<le> v" for xs
      using that
    proof (induction xs)
      case Nil
      show ?case by simp
    next
      case (Cons x xs)
      have a: "max x P_MIN \<le> x + P_MIN" using Cons.prems [of x] by (simp add: P_MIN_def max_def)
      have b: "sum_list (map (\<lambda>v. max v P_MIN) xs) \<le> sum_list xs + P_MIN * real (length xs)"
        using Cons by simp
      have c: "sum_list (map (\<lambda>v. max v P_MIN) (x # xs)) = max x P_MIN + sum_list (map (\<lambda>v. max v P_MIN) xs)"
        by simp
      have d: "sum_list (x # xs) + P_MIN * real (length (x # xs))
          = x + P_MIN + (sum_list xs + P_MIN * real (length xs))"
        by (simp add: algebra_simps)
      show ?case unfolding c d using a b by linarith
    qed
    have "sum_list (map (\<lambda>self. sum_list (map (\<lambda>v. max v P_MIN) (col (dv self) d))) ranks)
        \<le> sum_list (map (\<lambda>self. sum_list (col (dv self) d) + P_MIN * real (length (prob self))) ranks)"
    proof (rule sum_list_mono_real)
      fix self assume s: "self \<in> set ranks"
      have "length (col (dv self) d) = length (prob self)"
        by (simp add: nc(3) [OF s])
      then show "sum_list (map (\<lambda>v. max v P_MIN) (col (dv self) d))
          \<le> sum_list (col (dv self) d) + P_MIN * real (length (prob self))"
        using row [of "col (dv self) d"] nonneg [OF s] by simp
    qed
    also have "\<dots> = sum_list (map (\<lambda>self. sum_list (col (dv self) d)) ranks)
        + P_MIN * real (sum_list (map (\<lambda>self. length (prob self)) ranks))"
      by (induction ranks) (simp_all add: algebra_simps)
    finally show ?thesis using tot by (simp add: pres ft ft0)
  qed
  have zeroed: "frame_total (map prob res') d \<le> 1"
  proof -
    have "sum_list (map (\<lambda>self. sum_list (map (\<lambda>v. if v < P_MIN then 0 else v) (col (dv self) d))) ranks)
        \<le> sum_list (map (\<lambda>self. sum_list (map (\<lambda>v. v) (col (dv self) d))) ranks)"
      by (intro sum_list_mono_real) (use nonneg in auto)
    then show ?thesis using tot by (simp add: pres' ft ft0)
  qed
  show ?thesis
    using ns tot cu lower upper em zeroed by blast
qed

theorem normalize_prob_total_witness:
  "\<exists>probs rm. normalize_sums [example_emc\<lparr>num_rot := 2, prob := [[0], [- 40]]\<rparr>] = Inr (probs, rm)
      \<and> frame_total probs 0 = 1"
proof -
  have "prob_shapes [example_emc\<lparr>num_rot := 2, prob := [[0], [- 40]]\<rparr>] 1" "(0::nat) < 1"
    by (simp_all add: prob_shapes_def)
  from normalize_prob_total [OF this] show ?thesis by blast
qed

text \<open>
  Claim C2, at an input where it fails. On the same input, the last line of
  \<^verbatim>\<open>_normalize_prob\<close> in \<^verbatim>\<open>src/emc.py\<close> sets the second entry, which is below \<^verbatim>\<open>P_MIN\<close>,
  to zero: the entry ends below the floor.
\<close>

theorem normalize_prob_floor_counterexample:
  "emc_normalize_prob [example_emc\<lparr>num_rot := 2, prob := [[0], [- 40]]\<rparr>]
     = Inr [example_emc\<lparr>num_rot := 2, prob := [[1 / (1 + exp (- 40))], [0]], rmax := [0]\<rparr>]
   \<and> \<not> P_MIN \<le> prob (projr (emc_normalize_prob
           [example_emc\<lparr>num_rot := 2, prob := [[0], [- 40]]\<rparr>]) ! 0) ! 1 ! 0"
proof -
  have a: "exp (- 40) / (1 + exp (- 40)) < P_MIN"
    using example_small P_MIN_bounds by linarith
  have b: "\<not> 1 / (1 + exp (- 40)) < P_MIN"
    using example_large P_MIN_bounds by linarith
  have r: "emc_normalize_prob [example_emc\<lparr>num_rot := 2, prob := [[0], [- 40]]\<rparr>]
     = Inr [example_emc\<lparr>num_rot := 2, prob := [[1 / (1 + exp (- 40))], [0]], rmax := [0]\<rparr>]"
    by (simp add: emc_normalize_prob_def example_normalize_sums a b)
  have "\<not> P_MIN \<le> 0" by (simp add: P_MIN_def)
  then show ?thesis by (simp add: r)
qed

text \<open>
  Claim C2 as amended. When every rank has at least one row and all rows have \<open>n\<close>
  entries, the ranks leave \<^verbatim>\<open>_normalize_prob\<close> without an error and with matrices of the
  shape they had. Let \<open>dv\<close> be the matrices right after the division by the sum over
  all ranks. In \<^verbatim>\<open>src/cupadman/emc.py\<close> every entry ends as the larger of its value in
  \<open>dv\<close> and \<^verbatim>\<open>P_MIN\<close>, so it is at least \<^verbatim>\<open>P_MIN\<close>. In \<^verbatim>\<open>src/emc.py\<close> an entry that is
  below \<^verbatim>\<open>P_MIN\<close> in \<open>dv\<close> ends as 0 and any other entry keeps its value, so every entry
  is zero or at least \<^verbatim>\<open>P_MIN\<close>: none is left strictly between.
\<close>

theorem normalize_prob_floor:
  assumes "prob_shapes ranks n"
  shows "\<exists>dv rm res res'.
           normalize_sums ranks = Inr (dv, rm)
         \<and> cupadman_normalize_prob ranks = Inr res
         \<and> emc_normalize_prob ranks = Inr res'
         \<and> length res = length ranks \<and> length res' = length ranks
         \<and> map (\<lambda>self. length (prob self)) res = map (\<lambda>self. length (prob self)) ranks
         \<and> map (\<lambda>self. length (prob self)) res' = map (\<lambda>self. length (prob self)) ranks
         \<and> (\<forall>p<length ranks. \<forall>i<length (prob (ranks ! p)). \<forall>d<n.
               prob (res ! p) ! i ! d = max (dv ! p ! i ! d) P_MIN
             \<and> (dv ! p ! i ! d < P_MIN \<longrightarrow> prob (res' ! p) ! i ! d = 0)
             \<and> (P_MIN \<le> dv ! p ! i ! d \<longrightarrow> prob (res' ! p) ! i ! d = dv ! p ! i ! d))
         \<and> (\<forall>self\<in>set res. \<forall>row\<in>set (prob self). length row = n \<and> (\<forall>v\<in>set row. P_MIN \<le> v))
         \<and> (\<forall>self\<in>set res'. \<forall>row\<in>set (prob self).
               length row = n \<and> (\<forall>v\<in>set row. v = 0 \<or> P_MIN \<le> v))"
proof -
  define mx where "mx = Allreduce_MAX (map (\<lambda>self. amax0 (prob self)) ranks)"
  define ps where "ps = Allreduce_SUM (map (\<lambda>self. asum0 (exp_subtract (prob self) mx)) ranks)"
  define dv where "dv self = divide_rows (exp_subtract (prob self) mx) ps" for self :: emc
  have all: "list_all (\<lambda>self. prob self \<noteq> []) ranks"
    and rows: "\<And>self. self \<in> set ranks \<Longrightarrow> list_all (\<lambda>row. length row = n) (prob self)"
    using assms by (auto simp: prob_shapes_def list_all_iff)
  note sh = normalize_sums_shape [OF assms, folded mx_def, folded ps_def]
  obtain rm where ns: "normalize_sums ranks = Inr (map dv ranks, rm)"
    using normalize_sums_Inr [OF all, folded mx_def, folded ps_def, folded dv_def] by blast
  have dvrows: "list_all (\<lambda>row. length row = n) (dv self)" if "self \<in> set ranks" for self
    unfolding dv_def by (rule divide_rows_rows [OF exp_subtract_rows [OF rows [OF that] sh(1)] sh(2)])
  have dvlen: "length (dv self) = length (prob self)" for self
    by (simp add: dv_def divide_rows_def exp_subtract_def)
  define res where "res = map2 (\<lambda>self p. self\<lparr>prob := map (map (\<lambda>v. max v P_MIN)) p, rmax := rm\<rparr>)
      ranks (map dv ranks)"
  define res' where "res' = map2 (\<lambda>self p. self\<lparr>prob := map (map (\<lambda>v. if v < P_MIN then 0 else v)) p,
      rmax := rm\<rparr>) ranks (map dv ranks)"
  have cu: "cupadman_normalize_prob ranks = Inr res"
    by (simp add: cupadman_normalize_prob_def ns res_def)
  have em: "emc_normalize_prob ranks = Inr res'"
    by (simp add: emc_normalize_prob_def ns res'_def)
  have lres: "length res = length ranks" "length res' = length ranks"
    by (simp_all add: res_def res'_def)
  have "map prob res = map (map (map (\<lambda>v. max v P_MIN))) (map dv ranks)"
    unfolding res_def by (rule map_prob_update) simp
  then have pres: "map prob res = map (\<lambda>self. map (map (\<lambda>v. max v P_MIN)) (dv self)) ranks"
    by (simp add: comp_def)
  have "map prob res' = map (map (map (\<lambda>v. if v < P_MIN then 0 else v))) (map dv ranks)"
    unfolding res'_def by (rule map_prob_update) simp
  then have pres': "map prob res' = map (\<lambda>self. map (map (\<lambda>v. if v < P_MIN then 0 else v)) (dv self)) ranks"
    by (simp add: comp_def)
  have len: "map (\<lambda>self. length (prob self)) res = map (\<lambda>self. length (prob self)) ranks"
  proof -
    have "map (\<lambda>self. length (prob self)) res = map length (map prob res)" by (simp add: comp_def)
    also have "\<dots> = map (\<lambda>self. length (prob self)) ranks" by (simp add: pres comp_def dvlen)
    finally show ?thesis .
  qed
  have len': "map (\<lambda>self. length (prob self)) res' = map (\<lambda>self. length (prob self)) ranks"
  proof -
    have "map (\<lambda>self. length (prob self)) res' = map length (map prob res')" by (simp add: comp_def)
    also have "\<dots> = map (\<lambda>self. length (prob self)) ranks" by (simp add: pres' comp_def dvlen)
    finally show ?thesis .
  qed
  have cell: "prob (res ! p) ! i ! d = max (map dv ranks ! p ! i ! d) P_MIN
             \<and> (map dv ranks ! p ! i ! d < P_MIN \<longrightarrow> prob (res' ! p) ! i ! d = 0)
             \<and> (P_MIN \<le> map dv ranks ! p ! i ! d
                  \<longrightarrow> prob (res' ! p) ! i ! d = map dv ranks ! p ! i ! d)"
    if p: "p < length ranks" and i: "i < length (prob (ranks ! p))" and d: "d < n" for p i d
  proof -
    have "prob (res ! p) = map prob res ! p" using p lres by simp
    then have a: "prob (res ! p) = map (map (\<lambda>v. max v P_MIN)) (dv (ranks ! p))"
      using p by (simp add: pres)
    have "prob (res' ! p) = map prob res' ! p" using p lres by simp
    then have b: "prob (res' ! p) = map (map (\<lambda>v. if v < P_MIN then 0 else v)) (dv (ranks ! p))"
      using p by (simp add: pres')
    have i': "i < length (dv (ranks ! p))" using i by (simp add: dvlen)
    have "ranks ! p \<in> set ranks" using p by simp
    then have "length (dv (ranks ! p) ! i) = n"
      using dvrows i' by (simp add: list_all_length)
    then have d': "d < length (dv (ranks ! p) ! i)" using d by simp
    show ?thesis using p i' d' by (simp add: a b)
  qed
  have ent: "\<forall>self\<in>set res. \<forall>row\<in>set (prob self). length row = n \<and> (\<forall>v\<in>set row. P_MIN \<le> v)"
  proof (intro ballI)
    fix self row assume "self \<in> set res" "row \<in> set (prob self)"
    then have "row \<in> \<Union> (set ` set (map prob res))" by auto
    then obtain s where s: "s \<in> set ranks" and "row \<in> set (map (map (\<lambda>v. max v P_MIN)) (dv s))"
      unfolding pres by auto
    then obtain row0 where "row0 \<in> set (dv s)" and row: "row = map (\<lambda>v. max v P_MIN) row0" by auto
    then have "length row0 = n" using dvrows [OF s] by (simp add: list_all_iff)
    then show "length row = n \<and> (\<forall>v\<in>set row. P_MIN \<le> v)" by (auto simp: row)
  qed
  have ent': "\<forall>self\<in>set res'. \<forall>row\<in>set (prob self).
               length row = n \<and> (\<forall>v\<in>set row. v = 0 \<or> P_MIN \<le> v)"
  proof (intro ballI)
    fix self row assume "self \<in> set res'" "row \<in> set (prob self)"
    then have "row \<in> \<Union> (set ` set (map prob res'))" by auto
    then obtain s where s: "s \<in> set ranks"
      and "row \<in> set (map (map (\<lambda>v. if v < P_MIN then 0 else v)) (dv s))"
      unfolding pres' by auto
    then obtain row0 where "row0 \<in> set (dv s)"
      and row: "row = map (\<lambda>v. if v < P_MIN then 0 else v) row0" by auto
    then have "length row0 = n" using dvrows [OF s] by (simp add: list_all_iff)
    then show "length row = n \<and> (\<forall>v\<in>set row. v = 0 \<or> P_MIN \<le> v)" by (auto simp: row)
  qed
  have cells: "\<forall>p<length ranks. \<forall>i<length (prob (ranks ! p)). \<forall>d<n.
               prob (res ! p) ! i ! d = max (map dv ranks ! p ! i ! d) P_MIN
             \<and> (map dv ranks ! p ! i ! d < P_MIN \<longrightarrow> prob (res' ! p) ! i ! d = 0)
             \<and> (P_MIN \<le> map dv ranks ! p ! i ! d
                  \<longrightarrow> prob (res' ! p) ! i ! d = map dv ranks ! p ! i ! d)"
    by (intro allI impI) (rule cell)
  show ?thesis
    apply (rule exI [of _ "map dv ranks"])
    apply (rule exI [of _ rm])
    apply (rule exI [of _ res])
    apply (rule exI [of _ res'])
    apply (intro conjI)
    apply (fact ns cu em lres len len' cells ent ent')+
    done
qed

theorem normalize_prob_floor_witness:
  "\<exists>dv rm res res'.
       normalize_sums [example_emc\<lparr>num_rot := 2, prob := [[0], [- 40]]\<rparr>] = Inr (dv, rm)
     \<and> cupadman_normalize_prob [example_emc\<lparr>num_rot := 2, prob := [[0], [- 40]]\<rparr>] = Inr res
     \<and> emc_normalize_prob [example_emc\<lparr>num_rot := 2, prob := [[0], [- 40]]\<rparr>] = Inr res'
     \<and> map (\<lambda>self. length (prob self)) res = [2]
     \<and> map (\<lambda>self. length (prob self)) res' = [2]
     \<and> prob (res ! 0) ! 1 ! 0 = max (dv ! 0 ! 1 ! 0) P_MIN
     \<and> prob (res' ! 0) ! 1 ! 0 = 0
     \<and> prob (res' ! 0) ! 0 ! 0 = dv ! 0 ! 0 ! 0"
proof -
  let ?ranks = "[example_emc\<lparr>num_rot := 2, prob := [[0], [- 40]]\<rparr>]"
  have "prob_shapes ?ranks 1"
    by (simp add: prob_shapes_def)
  from normalize_prob_floor [OF this] obtain dv rm res res' where
      ns: "normalize_sums ?ranks = Inr (dv, rm)"
      and cu: "cupadman_normalize_prob ?ranks = Inr res"
      and em: "emc_normalize_prob ?ranks = Inr res'"
      and l: "map (\<lambda>self. length (prob self)) res = map (\<lambda>self. length (prob self)) ?ranks"
         "map (\<lambda>self. length (prob self)) res' = map (\<lambda>self. length (prob self)) ?ranks"
      and c: "\<forall>p<length ?ranks. \<forall>i<length (prob (?ranks ! p)). \<forall>d<1.
               prob (res ! p) ! i ! d = max (dv ! p ! i ! d) P_MIN
             \<and> (dv ! p ! i ! d < P_MIN \<longrightarrow> prob (res' ! p) ! i ! d = 0)
             \<and> (P_MIN \<le> dv ! p ! i ! d \<longrightarrow> prob (res' ! p) ! i ! d = dv ! p ! i ! d)"
    by (elim exE conjE)
  have dv: "dv = [[[1 / (1 + exp (- 40))], [exp (- 40) / (1 + exp (- 40))]]]"
    using ns by (simp only: example_normalize_sums sum.inject prod.inject)
  have e1: "dv ! 0 ! 1 ! 0 = exp (- 40) / (1 + exp (- 40))"
    and e0: "dv ! 0 ! 0 ! 0 = 1 / (1 + exp (- 40))"
    by (simp_all add: dv)
  have a: "dv ! 0 ! 1 ! 0 < P_MIN"
    unfolding e1 using example_small P_MIN_bounds by linarith
  have b: "P_MIN \<le> dv ! 0 ! 0 ! 0"
    unfolding e0 using example_large P_MIN_bounds by linarith
  have p0: "(0::nat) < length ?ranks" by simp
  have i1: "1 < length (prob (?ranks ! 0))" and i0: "0 < length (prob (?ranks ! 0))"
    by simp_all
  have d0: "(0::nat) < 1" by simp
  note c1 = c [rule_format, OF p0 i1 d0]
  note c0 = c [rule_format, OF p0 i0 d0]
  have r1: "prob (res ! 0) ! 1 ! 0 = max (dv ! 0 ! 1 ! 0) P_MIN"
    by (rule conjunct1 [OF c1])
  have r2: "prob (res' ! 0) ! 1 ! 0 = 0"
    by (rule mp [OF conjunct1 [OF conjunct2 [OF c1]] a])
  have r3: "prob (res' ! 0) ! 0 ! 0 = dv ! 0 ! 0 ! 0"
    by (rule mp [OF conjunct2 [OF conjunct2 [OF c0]] b])
  have l2: "map (\<lambda>self. length (prob self)) res = [2]" "map (\<lambda>self. length (prob self)) res' = [2]"
    using l by simp_all
  show ?thesis
    apply (rule exI [of _ dv])
    apply (rule exI [of _ rm])
    apply (rule exI [of _ res])
    apply (rule exI [of _ res'])
    apply (intro conjI)
    apply (fact ns cu em l2 r1 r2 r3)+
    done
qed

subsection \<open>The E-step keeps the shape of the probability buffer\<close>

lemma fold_invariant:
  assumes "P s" "\<And>x s. x \<in> set xs \<Longrightarrow> P s \<Longrightarrow> P (f x s)"
  shows "P (fold f xs s)"
  using assms by (induction xs arbitrary: s) auto

lemma length_launch_calc_prob_all [simp]:
  "length (launch_1d g (calc_prob_all lview ndata on mu o_acc m_acc p_o p_m c_m init sc) prob_r)
     = length prob_r"
  unfolding launch_1d_def by (rule fold_invariant) simp_all

lemma map_length_update:
  "length x = length (p ! i) \<Longrightarrow> map length (p[i := x]) = map length p"
  by (cases "i < length p") (simp_all add: map_update list_update_same_conv list_update_beyond)

lemma emc_calculate_prob_step_shape:
  fixes self :: emc and dmodel msum ir p view
  defines "st \<equiv> emc_calculate_prob_step dmodel msum ir (self\<lparr>prob := p\<rparr>, view)"
  shows "fst st = self\<lparr>prob := prob (fst st)\<rparr>" and "map length (prob (fst st)) = map length p"
  unfolding st_def
  by (cases ir; simp add: emc_calculate_prob_step_def Let_def map_length_update)+

lemma emc_calculate_prob_shape:
  fixes self :: emc and dmodel view
  defines "st \<equiv> emc_calculate_prob self dmodel view"
  shows "fst st = self\<lparr>prob := prob (fst st)\<rparr>" and "map length (prob (fst st)) = map length (prob self)"
proof -
  let ?P = "\<lambda>st :: emc \<times> real list.
      fst st = self\<lparr>prob := prob (fst st)\<rparr> \<and> map length (prob (fst st)) = map length (prob self)"
  have "?P (self, view)" by simp
  then have "?P st"
    unfolding st_def emc_calculate_prob_def Let_def
  proof (rule fold_invariant)
    fix x :: "nat \<times> nat" and s :: "emc \<times> real list"
    assume P: "?P s"
    obtain e v where s: "s = (e, v)" by (cases s)
    have e: "e = self\<lparr>prob := prob e\<rparr>" and len: "map length (prob e) = map length (prob self)"
      using P by (simp_all add: s)
    let ?s' = "emc_calculate_prob_step dmodel (- sum_list (model self)) x (self\<lparr>prob := prob e\<rparr>, v)"
    have "fst ?s' = self\<lparr>prob := prob (fst ?s')\<rparr>" "map length (prob (fst ?s')) = map length (prob e)"
      by (rule emc_calculate_prob_step_shape)+
    then show "?P (emc_calculate_prob_step dmodel (- sum_list (model self)) x s)"
      using len unfolding s e [symmetric] by simp
  qed
  then show "fst st = self\<lparr>prob := prob (fst st)\<rparr>"
    and "map length (prob (fst st)) = map length (prob self)" by simp_all
qed

subsection \<open>The M-step and the cells without weight\<close>

text \<open>
  The invariant of the two accumulators: both have \<open>N\<close> cells, no weight is negative,
  and a cell without weight holds no intensity.
\<close>

definition weighted :: "nat \<Rightarrow> real list \<times> real list \<Rightarrow> bool" where
  "weighted N mw \<longleftrightarrow>
     length (fst mw) = N \<and> length (snd mw) = N
     \<and> (\<forall>c<N. 0 \<le> snd mw ! c \<and> (snd mw ! c = 0 \<longrightarrow> fst mw ! c = 0))"

lemma weighted_zeros: "weighted N (replicate N 0, replicate N 0)"
  by (simp add: weighted_def)

lemma weighted_atomicAdd:
  assumes "weighted N (m, w)" "0 \<le> wt" "wt = 0 \<Longrightarrow> a = 0"
  shows "weighted N (atomicAdd i a m, atomicAdd i wt w)"
  unfolding weighted_def
proof (intro conjI allI impI)
  show "length (fst (atomicAdd i a m, atomicAdd i wt w)) = N"
    "length (snd (atomicAdd i a m, atomicAdd i wt w)) = N"
    using assms(1) by (simp_all add: weighted_def)
next
  fix c assume c: "c < N"
  have lm: "length m = N" and lw: "length w = N" and w0: "0 \<le> w ! c"
    and wz: "w ! c = 0 \<Longrightarrow> m ! c = 0"
    using assms(1) c by (simp_all add: weighted_def)
  show "0 \<le> snd (atomicAdd i a m, atomicAdd i wt w) ! c"
    using w0 assms(2) c lw by (cases "c = i") (simp_all add: atomicAdd_def)
  assume z: "snd (atomicAdd i a m, atomicAdd i wt w) ! c = 0"
  show "fst (atomicAdd i a m, atomicAdd i wt w) ! c = 0"
  proof (cases "c = i")
    case True
    then have "w ! c + wt = 0" using z c lw by (simp add: atomicAdd_def)
    then have "w ! c = 0" "wt = 0" using w0 assms(2) by linarith+
    then show ?thesis using True wz assms(3) c lm by (simp add: atomicAdd_def)
  next
    case False
    then show ?thesis using z wz by (simp add: atomicAdd_def)
  qed
qed

lemma weighted_slice_merge:
  assumes "weighted N mw"
  shows "weighted N (slice_merge view angle sz x y mw)"
proof -
  obtain m w where mw: "mw = (m, w)" by (cases mw)
  define tx where "tx = real_of_int (int x - int sz div 2) * cos angle
      - real_of_int (int y - int sz div 2) * sin angle + real_of_int (int sz div 2)"
  define ty where "ty = real_of_int (int x - int sz div 2) * sin angle
      + real_of_int (int y - int sz div 2) * cos angle + real_of_int (int sz div 2)"
  define fx where "fx = tx - real_of_int \<lfloor>tx\<rfloor>"
  define fy where "fy = ty - real_of_int \<lfloor>ty\<rfloor>"
  have fx: "0 \<le> fx" "0 \<le> 1 - fx" and fy: "0 \<le> fy" "0 \<le> 1 - fy"
    unfolding fx_def fy_def by linarith+
  have w1: "weighted N (atomicAdd i1 (v * (1 - fx) * (1 - fy)) m', atomicAdd i1 ((1 - fx) * (1 - fy)) w')"
    if "weighted N (m', w')" for i1 v m' w'
    by (rule weighted_atomicAdd [OF that]) (use fx fy in auto)
  have w2: "weighted N (atomicAdd i1 (v * fx * (1 - fy)) m', atomicAdd i1 (fx * (1 - fy)) w')"
    if "weighted N (m', w')" for i1 v m' w'
    by (rule weighted_atomicAdd [OF that]) (use fx fy in auto)
  have w3: "weighted N (atomicAdd i1 (v * (1 - fx) * fy) m', atomicAdd i1 ((1 - fx) * fy) w')"
    if "weighted N (m', w')" for i1 v m' w'
    by (rule weighted_atomicAdd [OF that]) (use fx fy in auto)
  have w4: "weighted N (atomicAdd i1 (v * fx * fy) m', atomicAdd i1 (fx * fy) w')"
    if "weighted N (m', w')" for i1 v m' w'
    by (rule weighted_atomicAdd [OF that]) (use fx fy in auto)
  have base: "weighted N (m, w)" using assms mw by simp
  show ?thesis
    unfolding mw slice_merge_def Let_def
    by (simp add: base tx_def [symmetric] ty_def [symmetric] fx_def [symmetric] fy_def [symmetric]
        w1 w2 w3 w4 del: of_int_diff)
qed

lemma weighted_launch_slice_merge:
  "weighted N mw \<Longrightarrow> weighted N (launch_2d g (slice_merge view angle sz) mw)"
  unfolding launch_2d_def
  by (rule fold_invariant) (auto simp: weighted_slice_merge)

lemma emc_update_model_step_weighted:
  assumes "weighted N (snd st)"
  shows "weighted N (snd (emc_update_model_step self p_norm ir st))"
proof -
  obtain i r where ir: "ir = (i, r)" by (cases ir)
  obtain view dm dw where st: "st = (view, dm, dw)" by (cases st)
  show ?thesis
    using assms weighted_launch_slice_merge [of N "(dm, dw)"]
    by (simp add: ir st emc_update_model_step_def Let_def split: prod.split)
qed

lemma emc_update_model_weighted:
  assumes "length dmodel = N" "length dmweights = N"
  shows "weighted N (snd (emc_update_model self view dmodel dmweights))"
  unfolding emc_update_model_def Let_def
  by (rule fold_invariant) (simp_all add: assms weighted_zeros emc_update_model_step_weighted)

lemma Reduce_SUM_nth:
  assumes "bufs \<noteq> []" "list_all (\<lambda>b. length b = N) bufs" "c < N"
  shows "Reduce_SUM bufs ! c = sum_list (map (\<lambda>b. b ! c) bufs)"
    and "length (Reduce_SUM bufs) = N"
  using assms ncols_eq [OF assms(1,2)] by (simp_all add: Reduce_SUM_def col_def)

lemma sum_list_nonneg_zero:
  assumes "\<And>x. x \<in> set xs \<Longrightarrow> 0 \<le> f x" "sum_list (map f xs) = (0::real)" "x \<in> set xs"
  shows "f x = 0"
  using assms
proof (induction xs)
  case Nil
  then show ?case by simp
next
  case (Cons a xs)
  have a: "0 \<le> f a" using Cons.prems(1) by simp
  have rest: "0 \<le> sum_list (map f xs)"
    by (rule sum_list_nonneg) (use Cons.prems(1) in auto)
  have "f a + sum_list (map f xs) = 0" using Cons.prems(2) by simp
  then have "f a = 0" "sum_list (map f xs) = 0"
    using a rest by linarith+
  then show ?case using Cons by auto
qed

lemma weighted_Reduce_SUM:
  assumes "xs \<noteq> []" "list_all (weighted N) xs"
  shows "weighted N (Reduce_SUM (map fst xs), Reduce_SUM (map snd xs))"
proof -
  have lf: "list_all (\<lambda>b. length b = N) (map fst xs)" and ls: "list_all (\<lambda>b. length b = N) (map snd xs)"
    using assms(2) by (auto simp: list_all_iff weighted_def)
  have ne: "map fst xs \<noteq> []" "map snd xs \<noteq> []" using assms(1) by simp_all
  show ?thesis
    unfolding weighted_def
  proof (intro conjI allI impI)
    show "length (fst (Reduce_SUM (map fst xs), Reduce_SUM (map snd xs))) = N"
      using ncols_eq [OF ne(1) lf] by (simp add: Reduce_SUM_def)
    show "length (snd (Reduce_SUM (map fst xs), Reduce_SUM (map snd xs))) = N"
      using ncols_eq [OF ne(2) ls] by (simp add: Reduce_SUM_def)
  next
    fix c assume c: "c < N"
    have m: "Reduce_SUM (map fst xs) ! c = sum_list (map (\<lambda>mw. fst mw ! c) xs)"
      using Reduce_SUM_nth(1) [OF ne(1) lf c] by (simp add: comp_def)
    have w: "Reduce_SUM (map snd xs) ! c = sum_list (map (\<lambda>mw. snd mw ! c) xs)"
      using Reduce_SUM_nth(1) [OF ne(2) ls c] by (simp add: comp_def)
    have nn: "0 \<le> snd mw ! c" if "mw \<in> set xs" for mw
      using assms(2) that c by (auto simp: list_all_iff weighted_def)
    show "0 \<le> snd (Reduce_SUM (map fst xs), Reduce_SUM (map snd xs)) ! c"
      unfolding snd_conv w by (rule sum_list_nonneg) (use nn in auto)
    assume "snd (Reduce_SUM (map fst xs), Reduce_SUM (map snd xs)) ! c = 0"
    then have z: "sum_list (map (\<lambda>mw. snd mw ! c) xs) = 0" by (simp add: w)
    have "fst mw ! c = 0" if mw: "mw \<in> set xs" for mw
    proof -
      have "snd mw ! c = 0" by (rule sum_list_nonneg_zero [OF nn z mw])
      then show ?thesis using assms(2) mw c by (auto simp: list_all_iff weighted_def)
    qed
    then have "sum_list (map (\<lambda>mw. fst mw ! c) xs) = 0"
      by (induction xs) auto
    then show "fst (Reduce_SUM (map fst xs), Reduce_SUM (map snd xs)) ! c = 0" by (simp add: m)
  qed
qed

text \<open>What \<^verbatim>\<open>_normalize_model\<close> leaves on the ranks, when the first of them is the root.\<close>

lemma normalize_model_result:
  assumes "xs \<noteq> []" "rank (fst (hd xs)) = 0" "list_all (\<lambda>x. weighted N (snd x)) xs"
  defines "res \<equiv> normalize_model xs"
  shows "length res = length xs"
    and "\<forall>self\<in>set res. model self = model (hd res)"
    and "length (model (hd res)) = N" and "length (mweights (hd res)) = N"
    and "\<forall>c<N. mweights (hd res) ! c = 0 \<longrightarrow> model (hd res) ! c = 0"
    and "mweights (hd res) = Reduce_SUM (map (\<lambda>x. snd (snd x)) xs)"
    and "model (hd res) = map2 (\<lambda>m w. if w > 0 then m / w else m)
           (Reduce_SUM (map (\<lambda>x. fst (snd x)) xs)) (Reduce_SUM (map (\<lambda>x. snd (snd x)) xs))"
proof -
  define rm where "rm = Reduce_SUM (map (\<lambda>x. fst (snd x)) xs)"
  define rw where "rw = Reduce_SUM (map (\<lambda>x. snd (snd x)) xs)"
  define fm where "fm = map2 (\<lambda>m w. if w > 0 then m / w else m) rm rw"
  have res: "res = map (\<lambda>x. (fst x)\<lparr>model := fm,
      mweights := (if rank (fst x) = 0 then rw else snd (snd x))\<rparr>) xs"
    unfolding res_def normalize_model_def Let_def fm_def rm_def rw_def
    by (simp add: case_prod_unfold)
  have "weighted N (Reduce_SUM (map fst (map snd xs)), Reduce_SUM (map snd (map snd xs)))"
    by (rule weighted_Reduce_SUM) (use assms in \<open>auto simp: list_all_iff\<close>)
  then have w: "weighted N (rm, rw)"
    by (simp add: rm_def rw_def comp_def)
  obtain x xs' where xs: "xs = x # xs'" using assms(1) by (cases xs) auto
  have hd: "hd res = (fst x)\<lparr>model := fm, mweights := rw\<rparr>"
    using assms(2) by (simp add: res xs)
  show "length res = length xs" by (simp add: res)
  show "\<forall>self\<in>set res. model self = model (hd res)" unfolding hd by (auto simp: res)
  show "length (model (hd res)) = N" "length (mweights (hd res)) = N"
    using w by (simp_all add: hd fm_def weighted_def)
  show "\<forall>c<N. mweights (hd res) ! c = 0 \<longrightarrow> model (hd res) ! c = 0"
    using w by (auto simp: hd fm_def weighted_def)
  show "mweights (hd res) = Reduce_SUM (map (\<lambda>x. snd (snd x)) xs)"
    by (simp add: hd rw_def)
  show "model (hd res) = map2 (\<lambda>m w. if w > 0 then m / w else m)
           (Reduce_SUM (map (\<lambda>x. fst (snd x)) xs)) (Reduce_SUM (map (\<lambda>x. snd (snd x)) xs))"
    by (simp add: hd fm_def rm_def rw_def)
qed

lemma normalize_sums_length:
  "normalize_sums ranks = Inr (probs, rm) \<Longrightarrow> length probs = length ranks"
  by (auto simp: normalize_sums_def Let_def split: if_splits)

lemma map2_update_nth:
  assumes "length probs = length ranks" "p < length ranks"
  shows "map2 (\<lambda>self q. self\<lparr>prob := f q, rmax := r\<rparr>) ranks probs ! p
           = (ranks ! p)\<lparr>prob := f (probs ! p), rmax := r\<rparr>"
  using assms by simp

lemma emc_normalize_prob_fields:
  assumes "emc_normalize_prob ranks = Inr res"
  shows "length res = length ranks"
    and "p < length ranks \<Longrightarrow> res ! p = (ranks ! p)\<lparr>prob := prob (res ! p), rmax := rmax (res ! p)\<rparr>"
proof -
  obtain probs rm where ns: "normalize_sums ranks = Inr (probs, rm)"
    and res: "res = map2 (\<lambda>self q. self\<lparr>prob := map (map (\<lambda>v. if v < P_MIN then 0 else v)) q,
                                     rmax := rm\<rparr>) ranks probs"
    using assms by (auto simp: emc_normalize_prob_def split: sum.splits)
  have len: "length probs = length ranks" by (rule normalize_sums_length [OF ns])
  show "length res = length ranks" by (simp add: res len)
  show "res ! p = (ranks ! p)\<lparr>prob := prob (res ! p), rmax := rmax (res ! p)\<rparr>" if "p < length ranks"
    unfolding res map2_update_nth [OF len that] by simp
qed

lemma emc_normalize_prob_Inr:
  assumes "list_all (\<lambda>self. prob self \<noteq> []) ranks"
  shows "\<exists>res. emc_normalize_prob ranks = Inr res"
  by (simp add: emc_normalize_prob_def normalize_sums_Inr [OF assms])

text \<open>The two halves of \<^verbatim>\<open>run_iteration\<close> in \<^verbatim>\<open>src/emc.py\<close>, as the function composes them.\<close>

definition emc_estep :: "emc list \<Rightarrow> (real list list \<times> real list) list \<Rightarrow> (emc \<times> real list) list" where
  "emc_estep ranks bufs =
     map2 (\<lambda>self (prob_empty, view_empty).
         emc_calculate_prob (self\<lparr>prob := prob_empty\<rparr>) (model self) view_empty) ranks bufs"

definition emc_mstep :: "emc list \<Rightarrow> (emc \<times> real list) list \<Rightarrow> (emc \<times> real list \<times> real list) list" where
  "emc_mstep normed estep =
     map2 (\<lambda>self (_, view).
         let (view, dmodel, dmweights) = emc_update_model self view (model self) (mweights self)
         in (self, dmodel, dmweights)) normed estep"

lemma emc_run_iteration_alt:
  "emc_run_iteration ranks bufs =
     (case emc_normalize_prob (map fst (emc_estep ranks bufs)) of
        Inl e \<Rightarrow> Inl e
      | Inr normed \<Rightarrow> Inr (normalize_model (emc_mstep normed (emc_estep ranks bufs))))"
  unfolding emc_run_iteration_def emc_estep_def emc_mstep_def Let_def by (rule refl)

lemma emc_estep_nth:
  assumes "length bufs = length ranks" "p < length ranks"
  shows "emc_estep ranks bufs ! p
           = emc_calculate_prob ((ranks ! p)\<lparr>prob := fst (bufs ! p)\<rparr>) (model (ranks ! p)) (snd (bufs ! p))"
  using assms by (simp add: emc_estep_def case_prod_unfold)

lemma emc_estep_fields:
  assumes "length bufs = length ranks" "p < length ranks"
  defines "self' \<equiv> fst (emc_estep ranks bufs ! p)"
  shows "self' = (ranks ! p)\<lparr>prob := prob self'\<rparr>"
    and "map length (prob self') = map length (fst (bufs ! p))"
proof -
  have "self' = (ranks ! p)\<lparr>prob := fst (bufs ! p)\<rparr>\<lparr>prob := prob self'\<rparr>"
    unfolding self'_def emc_estep_nth [OF assms(1,2)] by (rule emc_calculate_prob_shape(1))
  then show "self' = (ranks ! p)\<lparr>prob := prob self'\<rparr>" by simp
  show "map length (prob self') = map length (fst (bufs ! p))"
    unfolding self'_def emc_estep_nth [OF assms(1,2)]
    using emc_calculate_prob_shape(2) [of "(ranks ! p)\<lparr>prob := fst (bufs ! p)\<rparr>"] by simp
qed

lemma emc_mstep_nth:
  assumes "length normed = length estep" "p < length estep"
  shows "emc_mstep normed estep ! p
           = (normed ! p,
              snd (emc_update_model (normed ! p) (snd (estep ! p))
                     (model (normed ! p)) (mweights (normed ! p))))"
  using assms by (simp add: emc_mstep_def case_prod_unfold Let_def)

text \<open>
  Claim C3 as amended. Start one iteration of \<^verbatim>\<open>src/emc.py\<close> on any number of ranks, the
  first being the root, each with a model and weights of \<open>N\<close> cells and a probability
  buffer with at least one row. The iteration returns; all ranks end with the model of
  the root; and every cell whose summed weight is zero holds 0 in that model, whatever
  it held before: \<^verbatim>\<open>_update_model\<close> clears the accumulators before it adds to them, and
  a cell that got no weight got no intensity either.
\<close>

theorem emc_zero_weight_cells:
  assumes "ranks \<noteq> []" "rank (hd ranks) = 0" "length bufs = length ranks"
    and "list_all (\<lambda>self. length (model self) = N \<and> length (mweights self) = N) ranks"
    and "list_all (\<lambda>b. fst b \<noteq> []) bufs"
  shows "\<exists>res. emc_run_iteration ranks bufs = Inr res \<and> length res = length ranks
           \<and> (\<forall>self\<in>set res. model self = model (hd res))
           \<and> length (model (hd res)) = N \<and> length (mweights (hd res)) = N
           \<and> (\<forall>c<N. mweights (hd res) ! c = 0 \<longrightarrow> model (hd res) ! c = 0)"
proof -
  let ?es = "emc_estep ranks bufs"
  have les: "length ?es = length ranks" using assms(3) by (simp add: emc_estep_def)
  have "list_all (\<lambda>self. prob self \<noteq> []) (map fst ?es)"
    unfolding list_all_length
  proof (intro allI impI)
    fix p assume "p < length (map fst ?es)"
    then have p: "p < length ranks" using les by simp
    have "fst (bufs ! p) \<noteq> []" using assms(3,5) p by (simp add: list_all_length)
    then have "map length (prob (fst (?es ! p))) \<noteq> []"
      using emc_estep_fields(2) [OF assms(3) p] by simp
    then show "prob (map fst ?es ! p) \<noteq> []" using p les by auto
  qed
  then obtain normed where normed: "emc_normalize_prob (map fst ?es) = Inr normed"
    using emc_normalize_prob_Inr by blast
  have ln: "length normed = length ranks"
    using emc_normalize_prob_fields(1) [OF normed] les by simp
  have fields: "model (normed ! p) = model (ranks ! p) \<and> mweights (normed ! p) = mweights (ranks ! p)
      \<and> rank (normed ! p) = rank (ranks ! p)" if p: "p < length ranks" for p
  proof -
    have "normed ! p = (map fst ?es ! p)\<lparr>prob := prob (normed ! p), rmax := rmax (normed ! p)\<rparr>"
      using emc_normalize_prob_fields(2) [OF normed] p les by simp
    moreover have "map fst ?es ! p = (ranks ! p)\<lparr>prob := prob (fst (?es ! p))\<rparr>"
      using emc_estep_fields(1) [OF assms(3) p] p les by simp
    ultimately have "normed ! p = (ranks ! p)\<lparr>prob := prob (normed ! p), rmax := rmax (normed ! p)\<rparr>"
      by simp
    then show ?thesis
      by (metis emc.select_convs(1,6,7) emc.surjective emc.update_convs(9,10))
  qed
  let ?ms = "emc_mstep normed ?es"
  have lms: "length ?ms = length ranks" using ln les by (simp add: emc_mstep_def)
  have ms_ne: "?ms \<noteq> []" using lms assms(1) by auto
  have "0 < length ranks" using assms(1) by simp
  then have "fst (hd ?ms) = normed ! 0"
    using emc_mstep_nth [of normed ?es 0] ln les ms_ne by (simp add: hd_conv_nth)
  then have root: "rank (fst (hd ?ms)) = 0"
    using fields [of 0] assms(1,2) by (simp add: hd_conv_nth)
  have w: "list_all (\<lambda>x. weighted N (snd x)) ?ms"
    unfolding list_all_length
  proof (intro allI impI)
    fix p assume "p < length ?ms"
    then have p: "p < length ranks" using lms by simp
    have "length (model (ranks ! p)) = N" "length (mweights (ranks ! p)) = N"
      using assms(4) p by (simp_all add: list_all_length)
    then have "length (model (normed ! p)) = N" "length (mweights (normed ! p)) = N"
      using fields [OF p] by simp_all
    then show "weighted N (snd (?ms ! p))"
      using emc_mstep_nth [of normed ?es p] ln les p by (simp add: emc_update_model_weighted)
  qed
  note r = normalize_model_result [OF ms_ne root w]
  have "emc_run_iteration ranks bufs = Inr (normalize_model ?ms)"
    by (simp add: emc_run_iteration_alt normed)
  then show ?thesis
    using r(1,2,3,4,5) lms by auto
qed

subsection \<open>The small run, step by step\<close>

lemma filter_product:
  "filter (\<lambda>(x, y). P x \<and> Q y) (List.product xs ys) = List.product (filter P xs) (filter Q ys)"
proof (induction xs)
  case Nil
  show ?case by simp
next
  case (Cons x xs)
  have "filter (\<lambda>(x, y). P x \<and> Q y) (map (Pair x) ys) = (if P x then map (Pair x) (filter Q ys) else [])"
    by (induction ys) auto
  then show ?case using Cons by simp
qed

lemma filter_upt_less:
  assumes "n \<le> g"
  shows "filter (\<lambda>x. x < n) [0..<g] = [0..<n]"
proof -
  obtain k where k: "g = n + k" using assms le_Suc_ex by blast
  have "[0..<g] = [0..<n] @ [n..<n + k]" unfolding k by (rule upt_add_eq_append) simp
  then show ?thesis by (simp add: filter_empty_conv)
qed

lemma launch_2d_guarded:
  assumes "\<And>x y s. n \<le> x \<or> n \<le> y \<Longrightarrow> thr x y s = s" and "n \<le> grid * 32"
  shows "launch_2d grid thr s = fold (\<lambda>(x, y). thr x y) (List.product [0..<n] [0..<n]) s"
proof -
  have "fold (\<lambda>(x, y). thr x y) (List.product [0..<grid * 32] [0..<grid * 32]) s
      = fold (\<lambda>(x, y). thr x y)
          (filter (\<lambda>(x, y). x < n \<and> y < n) (List.product [0..<grid * 32] [0..<grid * 32])) s"
  proof (rule fold_skip_filter)
    fix xy :: "nat \<times> nat" and s'
    assume n: "\<not> (case xy of (x, y) \<Rightarrow> x < n \<and> y < n)"
    obtain x y where xy: "xy = (x, y)" by (cases xy)
    have "n \<le> x \<or> n \<le> y" using n by (auto simp: xy)
    then show "(case xy of (x, y) \<Rightarrow> thr x y) s' = s'"
      using assms(1) by (simp add: xy)
  qed
  then show ?thesis
    by (simp add: launch_2d_def filter_product filter_upt_less [OF assms(2)])
qed

lemma slice_gen_guard:
  assumes "sz \<le> x \<or> sz \<le> y"
  shows "slice_gen m angle scale sz b lf x y view = view"
proof -
  have "int x > int sz - 1 \<or> int y > int sz - 1" using assms by linarith
  then show ?thesis by (simp only: slice_gen_def if_True)
qed

lemma slice_merge_guard:
  assumes "sz \<le> x \<or> sz \<le> y"
  shows "slice_merge view angle sz x y mw = mw"
proof -
  have "int x > int sz - 1 \<or> int y > int sz - 1" using assms by linarith
  then show ?thesis by (simp only: slice_merge_def if_True)
qed

lemma launch_slice_gen:
  "launch_2d (bsize sz) (slice_gen m angle scale sz b lf) view
     = fold (\<lambda>(x, y). slice_gen m angle scale sz b lf x y) (List.product [0..<sz] [0..<sz]) view"
  by (rule launch_2d_guarded [OF slice_gen_guard le_bsize])

lemma launch_slice_merge:
  "launch_2d (bsize sz) (slice_merge view angle sz) mw
     = fold (\<lambda>(x, y). slice_merge view angle sz x y) (List.product [0..<sz] [0..<sz]) mw"
  by (rule launch_2d_guarded [OF slice_merge_guard le_bsize])

lemma launch_calc_prob_all:
  "launch_1d (bsize ndata) (calc_prob_all lview ndata on mu o_acc m_acc p_o p_m c_m init sc) prob_r
     = fold (calc_prob_all lview ndata on mu o_acc m_acc p_o p_m c_m init sc) [0..<ndata] prob_r"
  by (rule launch_1d_guarded [OF _ le_bsize]) (simp add: calc_prob_all_def)

lemma launch_merge_all:
  "launch_1d (bsize ndata) (merge_all prob_r ndata on mu o_acc m_acc p_o p_m c_m) view
     = fold (merge_all prob_r ndata on mu o_acc m_acc p_o p_m c_m) [0..<ndata] view"
  by (rule launch_1d_guarded [OF _ le_bsize]) (simp add: merge_all_def)

lemma example_owned: "owned_rots 0 (Suc 0) (Suc 0) = [0]"
proof -
  have "owned_rots 0 1 1 = [0]" by code_simp
  then show ?thesis by simp
qed

lemma product_2: "List.product [0..<2] [0..<2] = [(0, 0), (0, 1), (1, 0), (1, 1)]"
  by code_simp

lemma example_slice_gen:
  "slice_gen [1, 2, 3, 4] 0 1 2 (replicate 4 0) 1 0 0 view = view[0 := 0]"
  "slice_gen [1, 2, 3, 4] 0 1 2 (replicate 4 0) 1 0 (Suc 0) view = view[1 := - 1000]"
  "slice_gen [1, 2, 3, 4] 0 1 2 (replicate 4 0) 1 (Suc 0) 0 view = view[2 := - 1000]"
  "slice_gen [1, 2, 3, 4] 0 1 2 (replicate 4 0) 1 (Suc 0) (Suc 0) view = view[3 := - 1000]"
  by (simp_all add: slice_gen_def Let_def)

lemma example_slice_merge:
  "slice_merge [0, 0, 0, 0] 0 2 0 0 (m, w)
     = (atomicAdd 3 0 (atomicAdd 1 0 (atomicAdd 2 0 (atomicAdd 0 0 m))),
        atomicAdd 3 0 (atomicAdd 1 0 (atomicAdd 2 0 (atomicAdd 0 1 w))))"
  "slice_merge [0, 0, 0, 0] 0 2 0 (Suc 0) mw = mw"
  "slice_merge [0, 0, 0, 0] 0 2 (Suc 0) 0 mw = mw"
  "slice_merge [0, 0, 0, 0] 0 2 (Suc 0) (Suc 0) mw = mw"
  by (simp_all add: slice_merge_def Let_def)

lemma example_render:
  "launch_2d (bsize 2) (slice_gen [1, 2, 3, 4] 0 1 2 (replicate 4 0) 1) [9, 9, 9, 9]
     = [0, - 1000, - 1000, - 1000]"
  unfolding launch_slice_gen product_2 by (simp add: example_slice_gen)

lemma example_back_project:
  "launch_2d (bsize 2) (slice_merge [0, 0, 0, 0] 0 2) ([0, 0, 0, 0], [0, 0, 0, 0])
     = ([0, 0, 0, 0], [1, 0, 0, 0])"
  unfolding launch_slice_merge product_2 by (simp add: example_slice_merge atomicAdd_def)

lemma example_calculate_prob:
  "emc_calculate_prob (example_emc\<lparr>prob := [[7]]\<rparr>) [1, 2, 3, 4] [9, 9, 9, 9]
     = (example_emc\<lparr>prob := [[- 10]]\<rparr>, [0, - 1000, - 1000, - 1000])"
  by (simp add: emc_calculate_prob_def emc_calculate_prob_step_def example_emc_def example_dset_def
      example_owned enumerate_eq_zip angle_of_def example_render launch_calc_prob_all
      calc_prob_all_def Let_def)

lemma example_normalize_prob:
  "emc_normalize_prob [example_emc\<lparr>prob := [[- 10]]\<rparr>]
     = Inr [example_emc\<lparr>prob := [[1]], rmax := [0]\<rparr>]"
  by (simp add: emc_normalize_prob_def normalize_sums_def Let_def amax0_def col_def
      Allreduce_MAX_def Allreduce_SUM_def exp_subtract_def divide_rows_def asum0_def
      local_rmax_def argmax0_def argmax_def invalidate_rmax_def astype_i4_def example_emc_def
      P_MIN_def)

lemma example_update_model:
  "emc_update_model (example_emc\<lparr>prob := [[1]], rmax := [0]\<rparr>) [0, - 1000, - 1000, - 1000]
       [1, 2, 3, 4] [0, 0, 0, 0]
     = ([0, 0, 0, 0], [0, 0, 0, 0], [1, 0, 0, 0])"
  by (simp add: emc_update_model_def emc_update_model_step_def example_emc_def example_dset_def
      example_owned enumerate_eq_zip angle_of_def asum1_def launch_merge_all merge_all_def
      example_back_project Let_def)

lemma example_run_iteration:
  "emc_run_iteration [example_emc] [([[7]], [9, 9, 9, 9])]
     = Inr [example_emc\<lparr>model := [0, 0, 0, 0], mweights := [1, 0, 0, 0], prob := [[1]], rmax := [0]\<rparr>]"
proof -
  have m: "model example_emc = [1, 2, 3, 4]" "mweights example_emc = [0, 0, 0, 0]"
    "rank example_emc = 0"
    by (simp_all add: example_emc_def)
  have es: "emc_estep [example_emc] [([[7]], [9, 9, 9, 9])]
      = [(example_emc\<lparr>prob := [[- 10]]\<rparr>, [0, - 1000, - 1000, - 1000])]"
    by (simp add: emc_estep_def m example_calculate_prob)
  have ms: "emc_mstep [example_emc\<lparr>prob := [[1]], rmax := [0]\<rparr>]
        [(example_emc\<lparr>prob := [[- 10]]\<rparr>, [0, - 1000, - 1000, - 1000])]
      = [(example_emc\<lparr>prob := [[1]], rmax := [0]\<rparr>, [0, 0, 0, 0], [1, 0, 0, 0])]"
    by (simp add: emc_mstep_def m example_update_model)
  have nm: "normalize_model [(example_emc\<lparr>prob := [[1]], rmax := [0]\<rparr>, [0, 0, 0, 0], [1, 0, 0, 0])]
      = [example_emc\<lparr>model := [0, 0, 0, 0], mweights := [1, 0, 0, 0], prob := [[1]], rmax := [0]\<rparr>]"
    by (simp add: normalize_model_def Reduce_SUM_def col_def Let_def m)
  show ?thesis
    by (simp add: emc_run_iteration_alt es example_normalize_prob ms nm)
qed

text \<open>
  Claim C3, at an input where it fails. In the small run the only frame has no photon
  and the model starts as 1, 2, 3, 4. After the iteration the summed weight of cell 1 is
  zero, and the cell holds 0 where it held 2: the whole model is zero. The same happens
  in cells 2 and 3.
\<close>

theorem emc_zero_weight_cells_counterexample:
  "emc_run_iteration [example_emc] [([[7]], [9, 9, 9, 9])]
     = Inr [example_emc\<lparr>model := [0, 0, 0, 0], mweights := [1, 0, 0, 0], prob := [[1]], rmax := [0]\<rparr>]
   \<and> mweights (hd (projr (emc_run_iteration [example_emc] [([[7]], [9, 9, 9, 9])]))) ! 1 = 0
   \<and> model example_emc ! 1 = 2
   \<and> model (hd (projr (emc_run_iteration [example_emc] [([[7]], [9, 9, 9, 9])]))) ! 1 = 0"
  by (simp add: example_run_iteration) (simp add: example_emc_def)

theorem emc_zero_weight_cells_witness:
  "\<exists>res. emc_run_iteration [example_emc] [([[7]], [9, 9, 9, 9])] = Inr res
      \<and> length (model (hd res)) = 4 \<and> length (mweights (hd res)) = 4"
proof -
  have "[example_emc] \<noteq> []" "rank (hd [example_emc]) = 0"
    "length [([[7::real]], [9::real, 9, 9, 9])] = length [example_emc]"
    "list_all (\<lambda>self. length (model self) = 4 \<and> length (mweights self) = 4) [example_emc]"
    "list_all (\<lambda>b. fst b \<noteq> []) [([[7::real]], [9::real, 9, 9, 9])]"
    by (simp_all add: example_emc_def)
  from emc_zero_weight_cells [OF this] show ?thesis by blast
qed

subsection \<open>What a launch of \<^verbatim>\<open>calc_prob_all\<close> writes\<close>

text \<open>The value that thread \<open>d\<close> leaves in \<^verbatim>\<open>prob_r[d]\<close>.\<close>

definition log_prob ::
  "real list \<Rightarrow> nat list \<Rightarrow> nat list \<Rightarrow> nat list \<Rightarrow> nat list \<Rightarrow>
   nat list \<Rightarrow> nat list \<Rightarrow> nat list \<Rightarrow> real \<Rightarrow> real list \<Rightarrow> nat \<Rightarrow> real" where
  "log_prob lview on mu o_acc m_acc p_o p_m c_m init sc d =
     fold (\<lambda>t v. v + lview ! (p_m ! t) * real (c_m ! t)) [m_acc ! d..<m_acc ! d + mu ! d]
       (fold (\<lambda>t v. v + lview ! (p_o ! t)) [o_acc ! d..<o_acc ! d + on ! d] (init * sc ! d))"

lemma fold_cell:
  assumes "d < length pr"
  shows "fold (\<lambda>t pr. pr[d := pr ! d + a t]) ts pr = pr[d := fold (\<lambda>t v. v + a t) ts (pr ! d)]"
  using assms
proof (induction ts arbitrary: pr)
  case Nil
  then show ?case by simp
next
  case (Cons t ts)
  have "fold (\<lambda>t pr. pr[d := pr ! d + a t]) ts (pr[d := pr ! d + a t])
      = (pr[d := pr ! d + a t])[d := fold (\<lambda>t v. v + a t) ts ((pr[d := pr ! d + a t]) ! d)]"
    by (rule Cons.IH) (use Cons.prems in simp)
  then show ?case using Cons.prems by simp
qed

lemma calc_prob_all_cell:
  assumes "d < ndata" "d < length pr"
  shows "calc_prob_all lview ndata on mu o_acc m_acc p_o p_m c_m init sc d pr
           = pr[d := log_prob lview on mu o_acc m_acc p_o p_m c_m init sc d]"
  using assms by (simp add: calc_prob_all_def Let_def fold_cell log_prob_def)

lemma fold_calc_prob_all:
  assumes "n \<le> ndata" "n \<le> length pr"
  shows "fold (calc_prob_all lview ndata on mu o_acc m_acc p_o p_m c_m init sc) [0..<n] pr
           = map (log_prob lview on mu o_acc m_acc p_o p_m c_m init sc) [0..<n] @ drop n pr"
  using assms
proof (induction n)
  case 0
  show ?case by simp
next
  case (Suc n)
  let ?f = "log_prob lview on mu o_acc m_acc p_o p_m c_m init sc"
  have ih: "fold (calc_prob_all lview ndata on mu o_acc m_acc p_o p_m c_m init sc) [0..<n] pr
      = map ?f [0..<n] @ drop n pr"
    using Suc by simp
  have "drop n pr = pr ! n # drop (Suc n) pr"
    using Suc.prems(2) by (simp add: Cons_nth_drop_Suc)
  then have "(map ?f [0..<n] @ drop n pr)[n := ?f n] = map ?f [0..<n] @ ?f n # drop (Suc n) pr"
    by (simp add: list_update_append)
  moreover have "calc_prob_all lview ndata on mu o_acc m_acc p_o p_m c_m init sc n (map ?f [0..<n] @ drop n pr)
      = (map ?f [0..<n] @ drop n pr)[n := ?f n]"
    by (rule calc_prob_all_cell) (use Suc.prems in simp_all)
  ultimately show ?case by (simp add: ih)
qed

text \<open>
  A launch over the frames of a block writes the first \<open>ndata\<close> entries of the row and
  leaves the rest of the row as it was.
\<close>

lemma launch_calc_prob_all_row:
  assumes "ndata \<le> length pr"
  shows "launch_1d (bsize ndata) (calc_prob_all lview ndata on mu o_acc m_acc p_o p_m c_m init sc) pr
           = map (log_prob lview on mu o_acc m_acc p_o p_m c_m init sc) [0..<ndata] @ drop ndata pr"
  by (simp add: launch_calc_prob_all fold_calc_prob_all assms)

subsection \<open>The probability buffer across blocks and iterations\<close>

text \<open>
  Claim C6, at an input where it fails. The schedule of the example has a block of two
  frames and a block of one, so the buffer has two columns and the second block uses
  the first only. Its E-step leaves the second column as the first block left it, at
  the normalized value 1 (the first entry below stands for any fresh log-probability).
  \<^verbatim>\<open>_normalize_prob\<close> normalizes that column again, \<^verbatim>\<open>_update_model\<close> adds it to the
  responsibility sum \<^verbatim>\<open>self.prob.sum(1)\<close>, which is 2 for a block of one frame, while
  \<^verbatim>\<open>merge_all\<close> reads the \<^verbatim>\<open>num_data_b\<close> columns of the block only. The view handed to
  \<^verbatim>\<open>slice_merge\<close> is half of what it is when the trailing column is cleared: the
  trailing column does contribute to the M-step.
\<close>

theorem cupadman_trailing_columns_stale:
  "block_schedule 0 1 1 3 20 0 = Inr [2, 1]
   \<and> dranges 0 [2, 1] = [(0, 2), (2, 3)]
   \<and> cupadman_normalize_prob [example_cupadman\<lparr>prob := [[- 3, 1]]\<rparr>]
       = Inr [example_cupadman\<lparr>prob := [[1, 1]], rmax := [0, 0]\<rparr>]
   \<and> asum1 [[1, 1]] = [2]
   \<and> cupadman_merged_view (example_cupadman\<lparr>prob := [[1, 1]]\<rparr>) (asum1 [[1, 1]]) 0
         [9, 9, 9, 9] (2, 3) = [1 / 2, 0, 0, 0]
   \<and> cupadman_merged_view (example_cupadman\<lparr>prob := [[1, 0]]\<rparr>) (asum1 [[1, 0]]) 0
         [9, 9, 9, 9] (2, 3) = [1, 0, 0, 0]"
proof -
  have nb: "num_blocks (real (1 * 3 * 8) / real_of_int (20 - 0)) = 2"
    by (simp add: num_blocks_def MEM_THRESH_def)
  have bs: "block_sizes 3 2 = [2, 1]" by code_simp
  have a: "block_schedule 0 1 1 3 20 0 = Inr [2, 1]"
    using nb bs by (simp add: block_schedule_def mem_frac_def num_rot_p_def)
  have b: "dranges 0 [2, 1] = [(0, 2), (2, 3)]" by simp
  have c: "cupadman_normalize_prob [example_cupadman\<lparr>prob := [[- 3, 1]]\<rparr>]
       = Inr [example_cupadman\<lparr>prob := [[1, 1]], rmax := [0, 0]\<rparr>]"
    by (simp add: cupadman_normalize_prob_def normalize_sums_def Let_def amax0_def col_def
      Allreduce_MAX_def Allreduce_SUM_def exp_subtract_def divide_rows_def asum0_def
      local_rmax_def argmax0_def argmax_def invalidate_rmax_def astype_i4_def
      example_cupadman_def P_MIN_def numeral_2_eq_2)
  have d: "asum1 [[1, 1]] = [2]" by (simp add: asum1_def)
  have "\<lceil>(1::real) / 32\<rceil> = 1" by (rule ceiling_unique) simp_all
  then have bd: "bsize_data (example_cupadman\<lparr>prob := q\<rparr>) = bsize (3 - 2)" for q
    by (simp add: example_cupadman_def bsize_def)
  have mv: "cupadman_merged_view (example_cupadman\<lparr>prob := [[1, x]]\<rparr>) [y] 0 [9, 9, 9, 9] (2, 3)
      = [1 / y, 0, 0, 0]" for x y
    unfolding cupadman_merged_view_def Let_def fst_conv snd_conv bd launch_merge_all
    by (simp add: example_cupadman_def example_cdset_def merge_all_def py_slice_def atomicAdd_def)
  have e: "cupadman_merged_view (example_cupadman\<lparr>prob := [[1, 1]]\<rparr>) (asum1 [[1, 1]]) 0
         [9, 9, 9, 9] (2, 3) = [1 / 2, 0, 0, 0]"
    using mv [of 1 2] by (simp add: asum1_def)
  have f: "cupadman_merged_view (example_cupadman\<lparr>prob := [[1, 0]]\<rparr>) (asum1 [[1, 0]]) 0
         [9, 9, 9, 9] (2, 3) = [1, 0, 0, 0]"
    using mv [of 0 1] by (simp add: asum1_def)
  show ?thesis using a b c d e f by simp
qed


text \<open>An array of \<open>n\<close> rows and \<open>m\<close> columns.\<close>

definition array2 :: "real list list \<Rightarrow> nat \<Rightarrow> nat \<Rightarrow> bool" where
  "array2 a n m \<longleftrightarrow> length a = n \<and> list_all (\<lambda>row. length row = m) a"

lemma block_sizes_max:
  assumes "0 < nb"
  shows "block_sizes n nb \<noteq> []" and "Max (set (block_sizes n nb)) = hd (block_sizes n nb)"
proof -
  show ne: "block_sizes n nb \<noteq> []"
    using assms block_sizes_length [of n nb] by auto
  have hd: "hd (block_sizes n nb) = block_sizes n nb ! 0"
    using ne by (simp add: hd_conv_nth)
  show "Max (set (block_sizes n nb)) = hd (block_sizes n nb)"
  proof (rule Max_eqI)
    show "finite (set (block_sizes n nb))" by simp
    show "hd (block_sizes n nb) \<in> set (block_sizes n nb)" using ne by simp
    fix b assume "b \<in> set (block_sizes n nb)"
    then obtain i where i: "i < nb" "b = block_sizes n nb ! i"
      by (auto simp: in_set_conv_nth block_sizes_length)
    then show "b \<le> hd (block_sizes n nb)"
      using assms by (simp add: hd block_sizes_nth)
  qed
qed

lemma cupadman_calculate_prob_step_full:
  fixes self :: emc
  assumes "bsize_data self = bsize (e - s)"
  shows "\<exists>row views'. length row = e - s \<and>
           (\<forall>P. i < length P \<longrightarrow> length (P ! i) = e - s \<longrightarrow>
              cupadman_calculate_prob_step sg dmodel msum s e (i, r) (self\<lparr>prob := P\<rparr>, views)
                = (self\<lparr>prob := P[i := row]\<rparr>, views'))"
proof -
  define views' where "views' = views[i mod num_streams self := sg r dmodel (views ! (i mod num_streams self))]"
  define row where "row = map (log_prob (views' ! (i mod num_streams self))
      (py_slice s e (ones (dset self))) (py_slice s e (multi (dset self)))
      (py_slice s e (ones_accum (dset self))) (py_slice s e (multi_accum (dset self)))
      (place_ones (dset self)) (place_multi (dset self)) (count_multi (dset self)) msum
      (py_slice s e (scales self))) [0..<e - s]"
  have "cupadman_calculate_prob_step sg dmodel msum s e (i, r) (self\<lparr>prob := P\<rparr>, views)
      = (self\<lparr>prob := P[i := row]\<rparr>, views')"
    if "i < length P" "length (P ! i) = e - s" for P
    using that assms
    by (simp add: cupadman_calculate_prob_step_def Let_def views'_def [symmetric]
        launch_calc_prob_all_row row_def)
  moreover have "length row = e - s" by (simp add: row_def)
  ultimately show ?thesis by blast
qed

lemma cupadman_calculate_prob_fold_full:
  fixes self :: emc
  assumes "bsize_data self = bsize (e - s)"
    and "array2 P n (e - s)" "array2 P' n (e - s)" "take k P = take k P'" "k + length rs \<le> n"
  shows "\<exists>Q Q' V. fold (cupadman_calculate_prob_step sg dmodel msum s e) (enumerate k rs)
                      (self\<lparr>prob := P\<rparr>, views) = (self\<lparr>prob := Q\<rparr>, V)
           \<and> fold (cupadman_calculate_prob_step sg dmodel msum s e) (enumerate k rs)
                      (self\<lparr>prob := P'\<rparr>, views) = (self\<lparr>prob := Q'\<rparr>, V)
           \<and> array2 Q n (e - s) \<and> array2 Q' n (e - s)
           \<and> take (k + length rs) Q = take (k + length rs) Q'"
  using assms(2-)
proof (induction rs arbitrary: k P P' views)
  case Nil
  then show ?case by auto
next
  case (Cons r rs)
  obtain row views' where row: "length row = e - s"
    and step: "\<And>P. k < length P \<Longrightarrow> length (P ! k) = e - s \<Longrightarrow>
        cupadman_calculate_prob_step sg dmodel msum s e (k, r) (self\<lparr>prob := P\<rparr>, views)
          = (self\<lparr>prob := P[k := row]\<rparr>, views')"
    using cupadman_calculate_prob_step_full [OF assms(1), of k sg dmodel msum r views] by blast
  have k: "k < n" using Cons.prems(4) by simp
  have lP: "length P = n" "length P' = n" and rP: "length (P ! k) = e - s" "length (P' ! k) = e - s"
    using Cons.prems(1,2) k by (auto simp: array2_def list_all_length)
  have a1: "array2 (P[k := row]) n (e - s)" "array2 (P'[k := row]) n (e - s)"
    using Cons.prems(1,2) row k by (auto simp: array2_def list_all_length nth_list_update)
  have a2: "take (Suc k) (P[k := row]) = take (Suc k) (P'[k := row])"
    using Cons.prems(3) k lP by (simp add: take_Suc_conv_app_nth)
  have a3: "Suc k + length rs \<le> n" using Cons.prems(4) by simp
  obtain Q Q' V where
      "fold (cupadman_calculate_prob_step sg dmodel msum s e) (enumerate (Suc k) rs)
         (self\<lparr>prob := P[k := row]\<rparr>, views') = (self\<lparr>prob := Q\<rparr>, V)"
      "fold (cupadman_calculate_prob_step sg dmodel msum s e) (enumerate (Suc k) rs)
         (self\<lparr>prob := P'[k := row]\<rparr>, views') = (self\<lparr>prob := Q'\<rparr>, V)"
      "array2 Q n (e - s)" "array2 Q' n (e - s)"
      "take (Suc k + length rs) Q = take (Suc k + length rs) Q'"
    using Cons.IH [OF a1 a2 a3, of views'] by blast
  then show ?case
    using step [of P] step [of P'] k lP rP by auto
qed

text \<open>
  When the block has as many frames as the buffer has columns, \<^verbatim>\<open>_calculate_prob\<close>
  overwrites the whole buffer: what it leaves does not depend on what it found.
\<close>

lemma cupadman_calculate_prob_full:
  fixes self :: emc
  assumes "rank self < num_proc self"
    and "array2 P (num_rot_p (rank self) (num_rot self) (num_proc self)) (e - s)"
    and "array2 P' (num_rot_p (rank self) (num_rot self) (num_proc self)) (e - s)"
  shows "cupadman_calculate_prob sg (self\<lparr>prob := P\<rparr>) dmodel views (s, e)
           = cupadman_calculate_prob sg (self\<lparr>prob := P'\<rparr>) dmodel views (s, e)"
proof -
  let ?n = "num_rot_p (rank self) (num_rot self) (num_proc self)"
  let ?rs = "owned_rots (rank self) (num_rot self) (num_proc self)"
  let ?self = "self\<lparr>bsize_data := bsize (e - s)\<rparr>"
  have len: "length ?rs = ?n" by (rule owned_rots_length [OF assms(1)])
  obtain Q Q' V where
      q: "fold (cupadman_calculate_prob_step sg dmodel (- sum_list (model self)) s e) (enumerate 0 ?rs)
         (?self\<lparr>prob := P\<rparr>, views) = (?self\<lparr>prob := Q\<rparr>, V)"
      and q': "fold (cupadman_calculate_prob_step sg dmodel (- sum_list (model self)) s e) (enumerate 0 ?rs)
         (?self\<lparr>prob := P'\<rparr>, views) = (?self\<lparr>prob := Q'\<rparr>, V)"
      and a: "array2 Q ?n (e - s)" "array2 Q' ?n (e - s)"
      and t: "take (0 + length ?rs) Q = take (0 + length ?rs) Q'"
    using cupadman_calculate_prob_fold_full [of ?self e s P ?n P' 0 ?rs sg dmodel
        "- sum_list (model self)" views] assms(2,3) len
    by auto
  have "Q = Q'" using t a len by (simp add: array2_def)
  moreover have "cupadman_calculate_prob sg (self\<lparr>prob := A\<rparr>) dmodel views (s, e)
      = fold (cupadman_calculate_prob_step sg dmodel (- sum_list (model self)) s e) (enumerate 0 ?rs)
          (?self\<lparr>prob := A\<rparr>, views)" for A
    by (cases self) (simp add: cupadman_calculate_prob_def Let_def)
  ultimately show ?thesis
    by (simp only: q q')
qed

text \<open>
  What \<^verbatim>\<open>run_iteration\<close> may assume of a rank: its number is below the number of
  processes, the buffer left from before is an array (all rows of one length), and
  \<^verbatim>\<open>cp.empty\<close> returns an array of the shape it is asked for.
\<close>

definition buffer_ready :: "emc \<Rightarrow> real list list \<Rightarrow> bool" where
  "buffer_ready self prob_empty \<longleftrightarrow>
     rank self < num_proc self
     \<and> list_all (\<lambda>row. length row = ncols (prob self)) (prob self)
     \<and> (case block_schedule (rank self) (num_rot self) (num_proc self) (num_data (dset self))
               (mem_size self) (mem (dset self)) of
          Inl e \<Rightarrow> True
        | Inr bs \<Rightarrow> array2 prob_empty (num_rot_p (rank self) (num_rot self) (num_proc self))
                     (Max (set bs)))"

lemma block_schedule_Inr:
  assumes "block_schedule rk nrot nproc nd msz m = Inr bs"
  shows "bs \<noteq> []" and "Max (set bs) = hd bs"
proof -
  obtain mf where "mem_frac (num_rot_p rk nrot nproc) nd msz m = Inr mf"
    and nb: "0 < num_blocks mf" and bs: "bs = block_sizes nd (nat (num_blocks mf))"
    using assms by (auto simp: block_schedule_def split: sum.splits if_splits)
  have "0 < nat (num_blocks mf)" using nb by simp
  then show "bs \<noteq> []" and "Max (set bs) = hd bs"
    unfolding bs by (rule block_sizes_max)+
qed

text \<open>The buffer a rank enters the block loop with, whichever branch of the shape test it took.\<close>

lemma cupadman_entry_buffer:
  fixes self :: emc
  assumes "buffer_ready self prob_empty"
    and "block_schedule (rank self) (num_rot self) (num_proc self) (num_data (dset self))
           (mem_size self) (mem (dset self)) = Inr bs"
  defines "nrp \<equiv> num_rot_p (rank self) (num_rot self) (num_proc self)"
  defines "self' \<equiv> (if (length (prob self), ncols (prob self)) \<noteq> (nrp, Max (set bs))
                     then self\<lparr>prob := prob_empty\<rparr> else self)"
  shows "self' = self\<lparr>prob := prob self'\<rparr>" and "array2 (prob self') nrp (hd bs)"
proof -
  show "self' = self\<lparr>prob := prob self'\<rparr>" by (simp add: self'_def)
  have mx: "Max (set bs) = hd bs" by (rule block_schedule_Inr(2) [OF assms(2)])
  have e: "array2 prob_empty nrp (hd bs)"
    using assms(1,2) by (simp add: buffer_ready_def nrp_def mx)
  show "array2 (prob self') nrp (hd bs)"
  proof (cases "(length (prob self), ncols (prob self)) \<noteq> (nrp, Max (set bs))")
    case True
    then show ?thesis using e by (simp add: self'_def)
  next
    case False
    then have "length (prob self) = nrp" "ncols (prob self) = hd bs" by (simp_all add: mx)
    moreover have "list_all (\<lambda>row. length row = ncols (prob self)) (prob self)"
      using assms(1) by (simp add: buffer_ready_def)
    ultimately have "array2 (prob self) nrp (hd bs)" by (simp add: array2_def)
    then show ?thesis using False by (simp add: self'_def)
  qed
qed

text \<open>
  What a previous iteration or run leaves in the buffer does not reach the result. Take
  two runs of one iteration of \<^verbatim>\<open>src/cupadman/emc.py\<close> that differ only in the probability
  buffers the ranks hold from before and in the content of the arrays that \<^verbatim>\<open>cp.empty\<close>
  returns for \<^verbatim>\<open>self.prob\<close>. Both runs give the same result: the first block of the
  schedule is the largest, the buffer has exactly its number of columns, and the E-step
  of the first block overwrites every entry before anything reads the buffer. The
  trailing columns of a later, smaller block hold what the blocks of the same iteration
  wrote.
\<close>

lemma cupadman_buffer_overwritten:
  assumes "length ranks' = length ranks" "length bufs = length ranks" "length bufs' = length ranks"
    and "\<forall>p<length ranks. ranks' ! p = (ranks ! p)\<lparr>prob := prob (ranks' ! p)\<rparr>
                          \<and> snd (bufs' ! p) = snd (bufs ! p)"
    and "\<forall>p<length ranks. buffer_ready (ranks ! p) (fst (bufs ! p))
                          \<and> buffer_ready (ranks' ! p) (fst (bufs' ! p))"
  shows "cupadman_run_iteration slice_gen3 slice_merge3 ranks bufs
           = cupadman_run_iteration slice_gen3 slice_merge3 ranks' bufs'"
proof -
  define sch where "sch self = block_schedule (rank self) (num_rot self) (num_proc self)
      (num_data (dset self)) (mem_size self) (mem (dset self))" for self :: emc
  define entry where "entry bs = (\<lambda>(self::emc) (prob_empty, views_empty :: real list list).
      let nrp = num_rot_p (rank self) (num_rot self) (num_proc self);
          self = (if (length (prob self), ncols (prob self)) \<noteq> (nrp, Max (set bs))
                  then self\<lparr>prob := prob_empty\<rparr> else self)
      in (self, views_empty, model self, mweights self))" for bs :: "nat list"
  define G where "G drange = (\<lambda>(self :: emc, views, dmodel :: real list, dmweights :: real list).
      let (self, views) = cupadman_calculate_prob slice_gen3 self dmodel views drange
      in (self, views, dmodel, dmweights))" for drange :: "nat \<times> nat"
  have base: "ranks' ! p = (ranks ! p)\<lparr>prob := prob (ranks' ! p)\<rparr>" if "p < length ranks" for p
    using assms(4) that by blast
  have fields: "rank (ranks' ! p) = rank (ranks ! p)" "num_rot (ranks' ! p) = num_rot (ranks ! p)"
    "num_proc (ranks' ! p) = num_proc (ranks ! p)" "dset (ranks' ! p) = dset (ranks ! p)"
    "mem_size (ranks' ! p) = mem_size (ranks ! p)" "model (ranks' ! p) = model (ranks ! p)"
    "mweights (ranks' ! p) = mweights (ranks ! p)" if "p < length ranks" for p
    by (subst base [OF that], simp)+
  have schs: "map sch ranks' = map sch ranks"
    by (rule nth_equalityI) (simp_all add: assms(1) sch_def fields)
  have run: "cupadman_run_iteration slice_gen3 slice_merge3 rs bfs =
      (case map sch rs of
         [] \<Rightarrow> Inr []
       | Inl e # _ \<Rightarrow> Inl e
       | Inr bs # others \<Rightarrow>
           if list_ex (\<lambda>sch. sch \<noteq> Inr bs) others then Inl CollectiveMismatch
           else (case cupadman_blocks slice_gen3 slice_merge3 (dranges 0 bs) (map2 (entry bs) rs bfs) of
                  Inl e \<Rightarrow> Inl e
                | Inr fin \<Rightarrow> Inr (normalize_model
                    (map (\<lambda>(self, views, dmodel, dmweights). (self, dmodel, dmweights)) fin))))"
    for rs bfs
    unfolding cupadman_run_iteration_def Let_def sch_def entry_def by (rule refl)
  have blocks: "cupadman_blocks slice_gen3 slice_merge3 (dranges 0 bs) (map2 (entry bs) ranks bufs)
      = cupadman_blocks slice_gen3 slice_merge3 (dranges 0 bs) (map2 (entry bs) ranks' bufs')"
    if all: "\<forall>p<length ranks. sch (ranks ! p) = Inr bs" and ne: "ranks \<noteq> []" for bs
  proof -
    have "0 < length ranks" using ne by simp
    then have s0: "sch (ranks ! 0) = Inr bs" using all by blast
    have bs: "bs \<noteq> []" using block_schedule_Inr(1) [OF s0 [unfolded sch_def]] .
    then obtain b rest where bsc: "bs = b # rest" by (cases bs) auto
    have "map (G (0, b)) (map2 (entry bs) ranks bufs) = map (G (0, b)) (map2 (entry bs) ranks' bufs')"
    proof (rule nth_equalityI)
      show "length (map (G (0, b)) (map2 (entry bs) ranks bufs))
          = length (map (G (0, b)) (map2 (entry bs) ranks' bufs'))"
        by (simp add: assms(1,2,3))
    next
      fix p assume "p < length (map (G (0, b)) (map2 (entry bs) ranks bufs))"
      then have p: "p < length ranks" by simp
      let ?self = "ranks ! p"
      let ?nrp = "num_rot_p (rank ?self) (num_rot ?self) (num_proc ?self)"
      define s1 where "s1 = (if (length (prob ?self), ncols (prob ?self)) \<noteq> (?nrp, Max (set bs))
          then ?self\<lparr>prob := fst (bufs ! p)\<rparr> else ?self)"
      define s2 where "s2 = (if (length (prob (ranks' ! p)), ncols (prob (ranks' ! p))) \<noteq> (?nrp, Max (set bs))
          then (ranks' ! p)\<lparr>prob := fst (bufs' ! p)\<rparr> else ranks' ! p)"
      have r1: "buffer_ready ?self (fst (bufs ! p))" and r2: "buffer_ready (ranks' ! p) (fst (bufs' ! p))"
        using assms(5) p by blast+
      have sp: "sch ?self = Inr bs" using all p by blast
      have sp': "block_schedule (rank (ranks' ! p)) (num_rot (ranks' ! p)) (num_proc (ranks' ! p))
          (num_data (dset (ranks' ! p))) (mem_size (ranks' ! p)) (mem (dset (ranks' ! p))) = Inr bs"
        using sp by (simp add: sch_def fields [OF p])
      have e1: "s1 = ?self\<lparr>prob := prob s1\<rparr>" "array2 (prob s1) ?nrp (hd bs)"
        unfolding s1_def by (rule cupadman_entry_buffer [OF r1 sp [unfolded sch_def]])+
      have e2': "s2 = (ranks' ! p)\<lparr>prob := prob s2\<rparr>" "array2 (prob s2) ?nrp (hd bs)"
        using cupadman_entry_buffer [OF r2 sp'] unfolding s2_def fields [OF p] by blast+
      have "(ranks' ! p)\<lparr>prob := prob s2\<rparr> = ?self\<lparr>prob := prob s2\<rparr>"
        by (subst base [OF p]) simp
      then have e2: "s2 = ?self\<lparr>prob := prob s2\<rparr>" "array2 (prob s2) ?nrp (hd bs)"
        using e2' by simp_all
      have rk: "rank ?self < num_proc ?self" using r1 by (simp add: buffer_ready_def)
      have cp: "cupadman_calculate_prob slice_gen3 s1 (model ?self) (snd (bufs ! p)) (0, b)
          = cupadman_calculate_prob slice_gen3 s2 (model ?self) (snd (bufs ! p)) (0, b)"
        using cupadman_calculate_prob_full [OF rk, of "prob s1" b 0 "prob s2" slice_gen3
            "model ?self" "snd (bufs ! p)"] e1 e2
        by (simp add: bsc)
      have m1: "model s1 = model ?self" "mweights s1 = mweights ?self"
        by (subst e1(1), simp)+
      have m2: "model s2 = model ?self" "mweights s2 = mweights ?self"
        by (subst e2(1), simp)+
      have n1: "entry bs (ranks ! p) (bufs ! p) = (s1, snd (bufs ! p), model ?self, mweights ?self)"
        using m1 by (simp add: entry_def Let_def case_prod_unfold s1_def)
      have n2: "entry bs (ranks' ! p) (bufs' ! p) = (s2, snd (bufs ! p), model ?self, mweights ?self)"
        using p assms(4) m2 fields [OF p]
        by (simp add: entry_def Let_def case_prod_unfold s2_def)
      show "map (G (0, b)) (map2 (entry bs) ranks bufs) ! p
          = map (G (0, b)) (map2 (entry bs) ranks' bufs') ! p"
        using p assms(1,2,3) by (simp add: n1 n2 G_def cp)
    qed
    moreover define H where "H estep =
        (case cupadman_normalize_prob (map fst estep) of
           Inl e \<Rightarrow> Inl e
         | Inr normed \<Rightarrow>
             cupadman_blocks slice_gen3 slice_merge3 (dranges (0 + b) rest)
               (map2 (\<lambda>self (_, views, dmodel, dmweights).
                   let (views, dmodel, dmweights) =
                         cupadman_update_model slice_merge3 self views dmodel dmweights (0, 0 + b)
                   in (self, views, dmodel, dmweights))
                 normed estep))" for estep
    have "cupadman_blocks slice_gen3 slice_merge3 (dranges 0 bs) st = H (map (G (0, 0 + b)) st)" for st
      unfolding bsc dranges.simps cupadman_blocks.simps Let_def G_def H_def by (rule refl)
    ultimately show ?thesis by simp
  qed
  show ?thesis
  proof (cases "map sch ranks")
    case Nil
    then show ?thesis by (simp add: run schs)
  next
    case (Cons s0 others)
    then have ne: "ranks \<noteq> []" by auto
    show ?thesis
    proof (cases s0)
      case (Inl e)
      then show ?thesis by (simp add: run schs Cons)
    next
      case (Inr bs)
      show ?thesis
      proof (cases "list_ex (\<lambda>sch. sch \<noteq> Inr bs) others")
        case True
        then show ?thesis by (simp add: run schs Cons Inr)
      next
        case False
        have "\<forall>x\<in>set (map sch ranks). x = Inr bs"
          using False by (auto simp: Cons Inr list_ex_iff)
        then have "\<forall>p<length ranks. sch (ranks ! p) = Inr bs"
          by (metis length_map nth_map nth_mem)
        then show ?thesis
          using False blocks [OF _ ne] by (simp add: run schs Cons Inr)
      qed
    qed
  qed
qed
lemma cupadman_buffer_overwritten_example:
  "\<forall>slice_gen3 slice_merge3.
     cupadman_run_iteration slice_gen3 slice_merge3 [example_cupadman] [([[7, 7]], [[9, 9, 9, 9]])]
       = cupadman_run_iteration slice_gen3 slice_merge3 [example_cupadman\<lparr>prob := [[5, 5]]\<rparr>]
           [([[8, 8]], [[9, 9, 9, 9]])]"
proof (intro allI)
  fix slice_gen3 slice_merge3
  have nb: "num_blocks (real (1 * 3 * 8) / real_of_int (20 - 0)) = 2"
    by (simp add: num_blocks_def MEM_THRESH_def)
  have bs: "block_sizes 3 2 = [2, 1]" by code_simp
  have sch: "block_schedule 0 1 1 3 20 0 = Inr [2, 1]"
    using nb bs by (simp add: block_schedule_def mem_frac_def num_rot_p_def)
  have sch': "block_schedule 0 (Suc 0) (Suc 0) 3 20 0 = Inr [2, 1]"
    using sch by simp
  have r: "buffer_ready example_cupadman [[7, 7]]"
    "buffer_ready (example_cupadman\<lparr>prob := [[5, 5]]\<rparr>) [[8, 8]]"
    by (simp_all add: buffer_ready_def example_cupadman_def example_cdset_def sch' array2_def
        num_rot_p_def)
  have "length [example_cupadman\<lparr>prob := [[5, 5]]\<rparr>] = length [example_cupadman]"
    "length [([[7::real, 7]], [[9::real, 9, 9, 9]])] = length [example_cupadman]"
    "length [([[8::real, 8]], [[9::real, 9, 9, 9]])] = length [example_cupadman]"
    "\<forall>p<length [example_cupadman].
       [example_cupadman\<lparr>prob := [[5, 5]]\<rparr>] ! p
         = ([example_cupadman] ! p)\<lparr>prob := prob ([example_cupadman\<lparr>prob := [[5, 5]]\<rparr>] ! p)\<rparr>
       \<and> snd ([([[8::real, 8]], [[9::real, 9, 9, 9]])] ! p) = snd ([([[7::real, 7]], [[9::real, 9, 9, 9]])] ! p)"
    "\<forall>p<length [example_cupadman].
       buffer_ready ([example_cupadman] ! p) (fst ([([[7::real, 7]], [[9::real, 9, 9, 9]])] ! p))
       \<and> buffer_ready ([example_cupadman\<lparr>prob := [[5, 5]]\<rparr>] ! p)
            (fst ([([[8::real, 8]], [[9::real, 9, 9, 9]])] ! p))"
    using r by simp_all
  from cupadman_buffer_overwritten [OF this]
  show "cupadman_run_iteration slice_gen3 slice_merge3 [example_cupadman] [([[7, 7]], [[9, 9, 9, 9]])]
       = cupadman_run_iteration slice_gen3 slice_merge3 [example_cupadman\<lparr>prob := [[5, 5]]\<rparr>]
           [([[8, 8]], [[9, 9, 9, 9]])]" .
qed

subsection \<open>One iteration of \<^verbatim>\<open>src/emc.py\<close>, orientation by orientation\<close>

text \<open>
  The rendered view of orientation \<open>r\<close> and the row of log-probabilities it gives. Both
  depend on the model, the dataset and the orientation only, not on the rank that
  computes them.
\<close>

definition render :: "emc \<Rightarrow> nat \<Rightarrow> real list" where
  "render self r =
     launch_2d (bsize (sizeN self))
       (slice_gen (model self) (angle_of r (num_rot self)) 1 (sizeN self)
          (replicate (sizeN self * sizeN self) 0) 1)
       (replicate (sizeN self * sizeN self) 0)"

definition log_row :: "emc \<Rightarrow> nat \<Rightarrow> real list" where
  "log_row self r =
     map (log_prob (render self r) (ones (dset self)) (multi (dset self))
            (ones_accum (dset self)) (multi_accum (dset self))
            (place_ones (dset self)) (place_multi (dset self)) (count_multi (dset self))
            (- sum_list (model self)) (scales self))
       [0..<num_data (dset self)]"

lemma fold_update_independent:
  assumes "\<And>k. k \<in> set ks \<Longrightarrow> \<exists>val. \<forall>v. f k v = v[idx k := val]"
    and "length v = length v'"
    and "\<forall>t<length v. v ! t = v' ! t \<or> t \<in> idx ` set ks"
  shows "fold f ks v = fold f ks v'"
  using assms
proof (induction ks arbitrary: v v')
  case Nil
  then show ?case by (auto intro: nth_equalityI)
next
  case (Cons k ks)
  obtain val where val: "\<And>v. f k v = v[idx k := val]"
    using Cons.prems(1) [of k] by auto
  have "fold f ks (v[idx k := val]) = fold f ks (v'[idx k := val])"
  proof (rule Cons.IH)
    show "\<exists>val. \<forall>v. f j v = v[idx j := val]" if "j \<in> set ks" for j
      using Cons.prems(1) [of j] that by simp
    show "length (v[idx k := val]) = length (v'[idx k := val])"
      using Cons.prems(2) by simp
    show "\<forall>t<length (v[idx k := val]).
        v[idx k := val] ! t = v'[idx k := val] ! t \<or> t \<in> idx ` set ks"
    proof (intro allI impI)
      fix t assume t: "t < length (v[idx k := val])"
      show "v[idx k := val] ! t = v'[idx k := val] ! t \<or> t \<in> idx ` set ks"
      proof (cases "t = idx k")
        case True
        then show ?thesis using t Cons.prems(2) by simp
      next
        case False
        then show ?thesis using t Cons.prems(3) by auto
      qed
    qed
  qed
  then show ?case by (simp add: val)
qed

lemma slice_gen_update:
  assumes "x < sz" "y < sz"
  shows "\<exists>val. \<forall>view. slice_gen m angle scale sz b lf x y view = view[x * sz + y := val]"
proof -
  have g: "\<not> (int x > int sz - 1 \<or> int y > int sz - 1)" using assms by linarith
  show ?thesis
    unfolding slice_gen_def Let_def
    by (simp only: g if_False list_update_overwrite) (metis (full_types))
qed

lemma length_slice_gen [simp]: "length (slice_gen m angle scale sz b lf x y view) = length view"
  by (simp add: slice_gen_def Let_def)

lemma length_launch_slice_gen [simp]:
  "length (launch_2d g (slice_gen m angle scale sz b lf) view) = length view"
  unfolding launch_2d_def by (rule fold_invariant) auto

text \<open>A launch of \<^verbatim>\<open>slice_gen\<close> on a view of \<open>size * size\<close> pixels overwrites all of it.\<close>

lemma launch_slice_gen_independent:
  assumes "length view = sz * sz" "length view' = sz * sz"
  shows "launch_2d (bsize sz) (slice_gen m angle scale sz b lf) view
           = launch_2d (bsize sz) (slice_gen m angle scale sz b lf) view'"
  unfolding launch_slice_gen
proof (rule fold_update_independent [where idx = "\<lambda>(x, y). x * sz + y"])
  fix k :: "nat \<times> nat" assume "k \<in> set (List.product [0..<sz] [0..<sz])"
  then obtain x y where k: "k = (x, y)" "x < sz" "y < sz" by auto
  show "\<exists>val. \<forall>v. (case k of (x, y) \<Rightarrow> slice_gen m angle scale sz b lf x y) v
      = v[(case k of (x, y) \<Rightarrow> x * sz + y) := val]"
    using slice_gen_update [OF k(2,3)] by (simp add: k(1))
next
  show "length view = length view'" using assms by simp
  show "\<forall>t<length view. view ! t = view' ! t
      \<or> t \<in> (\<lambda>(x, y). x * sz + y) ` set (List.product [0..<sz] [0..<sz])"
  proof (intro allI impI disjI2)
    fix t assume "t < length view"
    then have t: "t < sz * sz" using assms by simp
    then have "0 < sz" by (cases sz) auto
    then have "t mod sz < sz" by simp
    moreover have "t div sz < sz" using t by (simp add: less_mult_imp_div_less)
    moreover have "t = (t div sz) * sz + t mod sz" by simp
    ultimately show "t \<in> (\<lambda>(x, y). x * sz + y) ` set (List.product [0..<sz] [0..<sz])"
      by (intro image_eqI [where x = "(t div sz, t mod sz)"]) auto
  qed
qed

lemma launch_slice_gen_render:
  assumes "length view = sizeN self * sizeN self"
  shows "launch_2d (bsize (sizeN self))
           (slice_gen (model self) (angle_of r (num_rot self)) 1 (sizeN self)
              (replicate (sizeN self * sizeN self) 0) 1) view = render self r"
  unfolding render_def by (rule launch_slice_gen_independent [OF assms]) simp

lemma length_render [simp]: "length (render self r) = sizeN self * sizeN self"
  by (simp add: render_def)

lemma length_log_row [simp]: "length (log_row self r) = num_data (dset self)"
  by (simp add: log_row_def)

lemma emc_calculate_prob_step_row:
  fixes me :: emc
  assumes "length view = sizeN me * sizeN me" "i < length P" "length (P ! i) = num_data (dset me)"
  shows "emc_calculate_prob_step (model me) (- sum_list (model me)) (i, r) (me\<lparr>prob := P\<rparr>, view)
           = (me\<lparr>prob := P[i := log_row me r]\<rparr>, render me r)"
  using assms
  by (simp add: emc_calculate_prob_step_def Let_def launch_slice_gen_render
      launch_calc_prob_all_row log_row_def)

lemma emc_calculate_prob_fold_rows:
  fixes me :: emc
  assumes "length view = sizeN me * sizeN me" "array2 P n (num_data (dset me))" "k + length rs \<le> n"
  shows "\<exists>view'. length view' = sizeN me * sizeN me
           \<and> fold (emc_calculate_prob_step (model me) (- sum_list (model me))) (enumerate k rs)
                (me\<lparr>prob := P\<rparr>, view)
               = (me\<lparr>prob := take k P @ map (log_row me) rs @ drop (k + length rs) P\<rparr>, view')"
  using assms
proof (induction rs arbitrary: k P view)
  case Nil
  then show ?case by simp
next
  case (Cons r rs)
  have k: "k < n" using Cons.prems(3) by simp
  have lP: "length P = n" and rP: "length (P ! k) = num_data (dset me)"
    using Cons.prems(2) k by (auto simp: array2_def list_all_length)
  have step: "emc_calculate_prob_step (model me) (- sum_list (model me)) (k, r) (me\<lparr>prob := P\<rparr>, view)
      = (me\<lparr>prob := P[k := log_row me r]\<rparr>, render me r)"
    by (rule emc_calculate_prob_step_row [OF Cons.prems(1)]) (use k lP rP in simp_all)
  have a: "array2 (P[k := log_row me r]) n (num_data (dset me))"
    using Cons.prems(2) k by (auto simp: array2_def list_all_length nth_list_update)
  obtain view' where v: "length view' = sizeN me * sizeN me"
    and f: "fold (emc_calculate_prob_step (model me) (- sum_list (model me))) (enumerate (Suc k) rs)
                (me\<lparr>prob := P[k := log_row me r]\<rparr>, render me r)
          = (me\<lparr>prob := take (Suc k) (P[k := log_row me r]) @ map (log_row me) rs
                @ drop (Suc k + length rs) (P[k := log_row me r])\<rparr>, view')"
    using Cons.IH [of "render me r" "P[k := log_row me r]" "Suc k"] a Cons.prems(3) by auto
  have "take (Suc k) (P[k := log_row me r]) = take k P @ [log_row me r]"
    using k lP by (simp add: take_Suc_conv_app_nth)
  moreover have "drop (Suc k + length rs) (P[k := log_row me r]) = drop (Suc k + length rs) P"
    by simp
  ultimately show ?case
    using v f step by simp
qed

text \<open>
  The E-step of a rank fills its buffer with the rows of the orientations it owns.
\<close>

lemma emc_calculate_prob_rows:
  fixes me :: emc
  assumes "length view = sizeN me * sizeN me"
    and "array2 P (length (owned_rots (rank me) (num_rot me) (num_proc me))) (num_data (dset me))"
  shows "\<exists>view'. length view' = sizeN me * sizeN me
           \<and> emc_calculate_prob (me\<lparr>prob := P\<rparr>) (model me) view
               = (me\<lparr>prob := map (log_row me) (owned_rots (rank me) (num_rot me) (num_proc me))\<rparr>,
                  view')"
proof -
  let ?rs = "owned_rots (rank me) (num_rot me) (num_proc me)"
  obtain view' where "length view' = sizeN me * sizeN me"
    and "fold (emc_calculate_prob_step (model me) (- sum_list (model me))) (enumerate 0 ?rs)
                (me\<lparr>prob := P\<rparr>, view)
          = (me\<lparr>prob := take 0 P @ map (log_row me) ?rs @ drop (0 + length ?rs) P\<rparr>, view')"
    using emc_calculate_prob_fold_rows [OF assms(1,2), of 0 ?rs] by auto
  moreover have "length P = length ?rs" using assms(2) by (simp add: array2_def)
  ultimately show ?thesis
    by (auto simp: emc_calculate_prob_def Let_def)
qed

text \<open>
  The same configuration on \<open>k\<close> processes: the ranks \<open>0, \<dots>, k - 1\<close> of a group of size
  \<open>k\<close>, all holding the model, the dataset and the orientation count of \<open>self\<close>.
\<close>

definition spmd :: "emc \<Rightarrow> nat \<Rightarrow> emc list" where
  "spmd self k = map (\<lambda>p. self\<lparr>rank := p, num_proc := k\<rparr>) [0..<k]"

text \<open>
  The per-frame maximum and normalizer over all orientations, and the normalized row of
  orientation \<open>r\<close> as \<^verbatim>\<open>src/emc.py\<close> leaves it.
\<close>

definition gmax :: "emc \<Rightarrow> nat \<Rightarrow> real" where
  "gmax self d = Max ((\<lambda>r. log_row self r ! d) ` {..<num_rot self})"

definition gsum :: "emc \<Rightarrow> nat \<Rightarrow> real" where
  "gsum self d = (\<Sum>r<num_rot self. exp (log_row self r ! d - gmax self d))"

definition nrow :: "emc \<Rightarrow> nat \<Rightarrow> real list" where
  "nrow self r =
     map (\<lambda>d. let v = exp (log_row self r ! d - gmax self d) / gsum self d
               in if v < P_MIN then 0 else v) [0..<num_data (dset self)]"

lemma sum_owned_rots:
  fixes f :: "nat \<Rightarrow> real"
  assumes "0 < k"
  shows "sum_list (map (\<lambda>p. sum_list (map f (owned_rots p n k))) [0..<k]) = sum f {..<n}"
proof -
  have inner: "sum_list (map f (owned_rots p n k)) = sum f {r \<in> {..<n}. r mod k = p}" if "p < k" for p
  proof -
    have "sum_list (map f (owned_rots p n k)) = sum f (set (owned_rots p n k))"
      by (rule sum_list_distinct_conv_sum_set [OF owned_rots_distinct [OF assms]])
    also have "set (owned_rots p n k) = {r \<in> {..<n}. r mod k = p}"
      using owned_rots_set [OF that] by auto
    finally show ?thesis .
  qed
  have "sum_list (map (\<lambda>p. sum_list (map f (owned_rots p n k))) [0..<k])
      = sum_list (map (\<lambda>p. sum f {r \<in> {..<n}. r mod k = p}) [0..<k])"
    by (rule arg_cong [where f = sum_list], rule map_cong [OF refl]) (simp add: inner)
  also have "\<dots> = (\<Sum>p\<in>{..<k}. sum f {r \<in> {..<n}. r mod k = p})"
    by (simp add: interv_sum_list_conv_sum_set_nat atLeast0LessThan)
  also have "\<dots> = sum f {..<n}"
    by (rule sum.group) (use assms in auto)
  finally show ?thesis .
qed

lemma Max_Max_UN:
  fixes A :: "'i \<Rightarrow> real set"
  assumes "finite I" "I \<noteq> {}" "\<And>i. i \<in> I \<Longrightarrow> finite (A i) \<and> A i \<noteq> {}"
  shows "Max ((\<lambda>i. Max (A i)) ` I) = Max (\<Union>i\<in>I. A i)"
proof (rule Max_eqI)
  show "finite ((\<lambda>i. Max (A i)) ` I)" using assms(1) by simp
  have fin: "finite (\<Union>i\<in>I. A i)" using assms by auto
  have ne: "(\<Union>i\<in>I. A i) \<noteq> {}" using assms by auto
  show "y \<le> Max (\<Union>i\<in>I. A i)" if y: "y \<in> (\<lambda>i. Max (A i)) ` I" for y
  proof -
    obtain i where i: "i \<in> I" "y = Max (A i)" using y by blast
    then have "y \<in> A i" using assms(3) [OF i(1)] by (simp add: Max_in)
    then show ?thesis using i(1) fin by (intro Max_ge) auto
  qed
  have "Max (\<Union>i\<in>I. A i) \<in> (\<Union>i\<in>I. A i)" by (rule Max_in [OF fin ne])
  then obtain i where i: "i \<in> I" "Max (\<Union>i\<in>I. A i) \<in> A i" by auto
  have "Max (A i) \<le> Max (\<Union>i\<in>I. A i)"
    using assms(3) [OF i(1)] i(1) fin by (intro Max_mono) auto
  moreover have "Max (\<Union>i\<in>I. A i) \<le> Max (A i)"
    using assms(3) [OF i(1)] i(2) by (intro Max_ge) auto
  ultimately have "Max (\<Union>i\<in>I. A i) = Max (A i)" by simp
  then show "Max (\<Union>i\<in>I. A i) \<in> (\<lambda>i. Max (A i)) ` I" using i(1) by auto
qed

lemma max_owned_rots:
  fixes g :: "nat \<Rightarrow> real"
  assumes "0 < k" "k \<le> n"
  shows "Max ((\<lambda>p. Max (g ` set (owned_rots p n k))) ` {..<k}) = Max (g ` {..<n})"
proof -
  have "Max ((\<lambda>p. Max (g ` set (owned_rots p n k))) ` {..<k})
      = Max (\<Union>p\<in>{..<k}. g ` set (owned_rots p n k))"
  proof (rule Max_Max_UN)
    show "finite {..<k}" "{..<k} \<noteq> {}" using assms(1) by auto
    fix p assume "p \<in> {..<k}"
    then have p: "p < k" by simp
    then have "p \<in> set (owned_rots p n k)"
      using assms(2) by (simp add: owned_rots_set)
    then show "finite (g ` set (owned_rots p n k)) \<and> g ` set (owned_rots p n k) \<noteq> {}"
      by auto
  qed
  also have "(\<Union>p\<in>{..<k}. g ` set (owned_rots p n k)) = g ` {..<n}"
  proof (intro set_eqI iffI)
    fix y assume "y \<in> (\<Union>p\<in>{..<k}. g ` set (owned_rots p n k))"
    then show "y \<in> g ` {..<n}" by (auto simp: owned_rots_set)
  next
    fix y assume "y \<in> g ` {..<n}"
    then obtain r where r: "r < n" "y = g r" by auto
    have "r mod k < k" using assms(1) by simp
    moreover have "r \<in> set (owned_rots (r mod k) n k)"
      using r(1) assms(1) by (simp add: owned_rots_set)
    ultimately show "y \<in> (\<Union>p\<in>{..<k}. g ` set (owned_rots p n k))"
      using r(2) by blast
  qed
  finally show ?thesis .
qed

lemma map2_map_same: "map2 f xs (map g xs) = map (\<lambda>x. f x (g x)) xs"
  by (induction xs) auto

lemma emc_normalize_prob_explicit:
  assumes "list_all (\<lambda>self. prob self \<noteq> []) ranks"
  defines "mx \<equiv> Allreduce_MAX (map (\<lambda>self. amax0 (prob self)) ranks)"
  defines "ps \<equiv> Allreduce_SUM (map (\<lambda>self. asum0 (exp_subtract (prob self) mx)) ranks)"
  shows "\<exists>rm. emc_normalize_prob ranks
           = Inr (map (\<lambda>self. self\<lparr>prob := map (map (\<lambda>v. if v < P_MIN then 0 else v))
                                         (divide_rows (exp_subtract (prob self) mx) ps),
                                    rmax := rm\<rparr>) ranks)"
proof -
  obtain probs rm where ns: "normalize_sums ranks = Inr (probs, rm)"
    and probs: "probs = map (\<lambda>self. divide_rows (exp_subtract (prob self) mx) ps) ranks"
    using normalize_sums_Inr [OF assms(1)] by (simp add: mx_def ps_def)
  have "emc_normalize_prob ranks
      = Inr (map (\<lambda>self. self\<lparr>prob := map (map (\<lambda>v. if v < P_MIN then 0 else v))
                                         (divide_rows (exp_subtract (prob self) mx) ps),
                                    rmax := rm\<rparr>) ranks)"
    by (simp add: emc_normalize_prob_def ns probs map2_map_same)
  then show ?thesis by blast
qed

text \<open>
  The ranks of a group that hold the rows of their orientations, and the global
  maximum and normalizer that \<^verbatim>\<open>_normalize_prob\<close> computes for them.
\<close>

lemma spmd_normalize_globals:
  fixes self :: emc
  assumes "0 < k" "k \<le> num_rot self" "length ranks = k"
    and "\<And>p. p < k \<Longrightarrow> prob (ranks ! p) = map (log_row self) (owned_rots p (num_rot self) k)"
  defines "mx \<equiv> Allreduce_MAX (map (\<lambda>s. amax0 (prob s)) ranks)"
  defines "ps \<equiv> Allreduce_SUM (map (\<lambda>s. asum0 (exp_subtract (prob s) mx)) ranks)"
  shows "prob_shapes ranks (num_data (dset self))"
    and "mx = map (gmax self) [0..<num_data (dset self)]"
    and "ps = map (gsum self) [0..<num_data (dset self)]"
proof -
  let ?n = "num_rot self" and ?nd = "num_data (dset self)"
  have own: "p \<in> set (owned_rots p ?n k)" if "p < k" for p
    using that assms(2) by (simp add: owned_rots_set)
  have ne: "ranks \<noteq> []" using assms(1,3) by auto
  have nth: "map f ranks = map (\<lambda>p. f (ranks ! p)) [0..<k]" for f :: "emc \<Rightarrow> 'b"
  proof -
    have "map f ranks = map f (map ((!) ranks) [0..<length ranks])" by (simp only: map_nth)
    then show ?thesis by (simp add: assms(3) comp_def)
  qed
  show sh: "prob_shapes ranks ?nd"
    unfolding prob_shapes_def list_all_length
  proof (intro conjI allI impI ne)
    fix p assume "p < length ranks"
    then have p: "p < k" using assms(3) by simp
    show "prob (ranks ! p) \<noteq> []" using own [OF p] by (auto simp: assms(4) [OF p])
    fix i assume "i < length (prob (ranks ! p))"
    then show "length (prob (ranks ! p) ! i) = ?nd"
      by (simp add: assms(4) [OF p])
  qed
  note shp = normalize_sums_shape [OF sh, folded mx_def, folded ps_def]
  have nc: "ncols (prob (ranks ! p)) = ?nd" if "p < k" for p
    using own [OF that] by (cases "owned_rots p ?n k") (auto simp: assms(4) [OF that])
  have colp: "col (prob (ranks ! p)) d = map (\<lambda>r. log_row self r ! d) (owned_rots p ?n k)"
    if "p < k" for p d
    by (simp add: col_def assms(4) [OF that])
  have mxd: "mx ! d = gmax self d" if d: "d < ?nd" for d
  proof -
    have nc2: "ncols (map (\<lambda>s. amax0 (prob s)) ranks) = ?nd"
      using shp(1) by (simp add: mx_def)
    have "mx ! d = Max (set (map (\<lambda>s. amax0 (prob s) ! d) ranks))"
      using d nc2 by (simp add: mx_def Allreduce_MAX_def col_def comp_def)
    also have "map (\<lambda>s. amax0 (prob s) ! d) ranks
        = map (\<lambda>p. Max ((\<lambda>r. log_row self r ! d) ` set (owned_rots p ?n k))) [0..<k]"
      unfolding nth [of "\<lambda>s. amax0 (prob s) ! d"]
      by (rule map_cong [OF refl]) (use d in \<open>simp add: amax0_def nc colp\<close>)
    also have "Max (set (map (\<lambda>p. Max ((\<lambda>r. log_row self r ! d) ` set (owned_rots p ?n k))) [0..<k]))
        = Max ((\<lambda>p. Max ((\<lambda>r. log_row self r ! d) ` set (owned_rots p ?n k))) ` {..<k})"
      by (simp add: atLeast0LessThan)
    also have "\<dots> = gmax self d"
      unfolding gmax_def by (rule max_owned_rots [OF assms(1,2)])
    finally show ?thesis .
  qed
  show mx: "mx = map (gmax self) [0..<?nd]"
    by (rule nth_equalityI) (simp_all add: shp(1) mxd)
  have psd: "ps ! d = gsum self d" if d: "d < ?nd" for d
  proof -
    have "ps ! d = sum_list (map (\<lambda>s. sum_list (map (\<lambda>row. exp (row ! d - mx ! d)) (prob s))) ranks)"
      by (rule shp(3) [OF d])
    also have "\<dots> = sum_list (map (\<lambda>p. sum_list (map (\<lambda>r. exp (log_row self r ! d - gmax self d))
        (owned_rots p ?n k))) [0..<k])"
      unfolding nth [of "\<lambda>s. sum_list (map (\<lambda>row. exp (row ! d - mx ! d)) (prob s))"]
      by (rule arg_cong [where f = sum_list], rule map_cong [OF refl])
         (simp add: assms(4) comp_def mxd [OF d])
    also have "\<dots> = gsum self d"
      unfolding gsum_def by (rule sum_owned_rots [OF assms(1)])
    finally show ?thesis .
  qed
  show "ps = map (gsum self) [0..<?nd]"
    by (rule nth_equalityI) (simp_all add: shp(2) psd)
qed

lemma normalized_row:
  assumes "mx = map (gmax self) [0..<num_data (dset self)]"
    and "ps = map (gsum self) [0..<num_data (dset self)]"
  shows "map (\<lambda>v. if v < P_MIN then 0 else v)
           (map2 (\<lambda>v s. v / s) (map2 (\<lambda>v m. exp (v - m)) (log_row self r) mx) ps)
         = nrow self r"
  unfolding assms by (rule nth_equalityI) (simp_all add: nrow_def Let_def)

lemma normalized_rows:
  assumes "mx = map (gmax self) [0..<num_data (dset self)]"
    and "ps = map (gsum self) [0..<num_data (dset self)]"
  shows "map (map (\<lambda>v. if v < P_MIN then 0 else v))
           (divide_rows (exp_subtract (map (log_row self) rs) mx) ps)
         = map (nrow self) rs"
proof (induction rs)
  case Nil
  show ?case by (simp add: divide_rows_def exp_subtract_def)
next
  case (Cons r rs)
  have "map (map (\<lambda>v. if v < P_MIN then 0 else v))
           (divide_rows (exp_subtract (map (log_row self) (r # rs)) mx) ps)
      = map (\<lambda>v. if v < P_MIN then 0 else v)
           (map2 (\<lambda>v s. v / s) (map2 (\<lambda>v m. exp (v - m)) (log_row self r) mx) ps)
        # map (map (\<lambda>v. if v < P_MIN then 0 else v))
           (divide_rows (exp_subtract (map (log_row self) rs) mx) ps)"
    by (simp add: divide_rows_def exp_subtract_def)
  then show ?case
    by (simp only: Cons.IH normalized_row [OF assms] list.map)
qed

text \<open>What \<^verbatim>\<open>_normalize_prob\<close> leaves on such a group: the normalized rows.\<close>

lemma spmd_normalize_prob:
  fixes self :: emc
  assumes "0 < k" "k \<le> num_rot self" "length ranks = k"
    and "\<And>p. p < k \<Longrightarrow> prob (ranks ! p) = map (log_row self) (owned_rots p (num_rot self) k)"
  shows "\<exists>res rm. emc_normalize_prob ranks = Inr res \<and> length res = k
           \<and> (\<forall>p<k. res ! p = (ranks ! p)\<lparr>prob := map (nrow self) (owned_rots p (num_rot self) k),
                                           rmax := rm\<rparr>)"
proof -
  define mx where "mx = Allreduce_MAX (map (\<lambda>s. amax0 (prob s)) ranks)"
  define ps where "ps = Allreduce_SUM (map (\<lambda>s. asum0 (exp_subtract (prob s) mx)) ranks)"
  note g = spmd_normalize_globals [OF assms, folded mx_def, folded ps_def]
  have "list_all (\<lambda>s. prob s \<noteq> []) ranks"
    using g(1) by (auto simp: prob_shapes_def list_all_iff)
  then obtain rm where res: "emc_normalize_prob ranks
      = Inr (map (\<lambda>s. s\<lparr>prob := map (map (\<lambda>v. if v < P_MIN then 0 else v))
                                   (divide_rows (exp_subtract (prob s) mx) ps),
                              rmax := rm\<rparr>) ranks)"
    using emc_normalize_prob_explicit [of ranks, folded mx_def, folded ps_def] by blast
  have "map (map (\<lambda>v. if v < P_MIN then 0 else v))
          (divide_rows (exp_subtract (prob (ranks ! p)) mx) ps)
      = map (nrow self) (owned_rots p (num_rot self) k)" if p: "p < k" for p
    unfolding assms(4) [OF p] by (rule normalized_rows [OF g(2,3)])
  then have "\<forall>p<k. map (\<lambda>s. s\<lparr>prob := map (map (\<lambda>v. if v < P_MIN then 0 else v))
                                   (divide_rows (exp_subtract (prob s) mx) ps),
                              rmax := rm\<rparr>) ranks ! p
      = (ranks ! p)\<lparr>prob := map (nrow self) (owned_rots p (num_rot self) k), rmax := rm\<rparr>"
    using assms(3) by simp
  moreover have "length (map (\<lambda>s. s\<lparr>prob := map (map (\<lambda>v. if v < P_MIN then 0 else v))
                                   (divide_rows (exp_subtract (prob s) mx) ps),
                              rmax := rm\<rparr>) ranks) = k"
    using assms(3) by simp
  ultimately show ?thesis
    using res by blast
qed

text \<open>
  The merged view of orientation \<open>r\<close>, and what the orientation adds to the model and
  to the weights: nothing when its row adds up to zero, and otherwise what
  \<^verbatim>\<open>slice_merge\<close> scatters into cleared accumulators.
\<close>

definition merged :: "emc \<Rightarrow> nat \<Rightarrow> real list" where
  "merged self r =
     launch_1d (bsize (num_data (dset self)))
       (merge_all (nrow self r) (num_data (dset self))
          (ones (dset self)) (multi (dset self))
          (ones_accum (dset self)) (multi_accum (dset self))
          (place_ones (dset self)) (place_multi (dset self)) (count_multi (dset self)))
       (replicate (sizeN self * sizeN self) 0)"

definition contrib :: "emc \<Rightarrow> nat \<Rightarrow> real list \<times> real list" where
  "contrib self r =
     (if sum_list (nrow self r) = 0
      then (replicate (length (model self)) 0, replicate (length (model self)) 0)
      else launch_2d (bsize (sizeN self))
             (slice_merge (map (\<lambda>v. v / sum_list (nrow self r)) (merged self r))
                (angle_of r (num_rot self)) (sizeN self))
             (replicate (length (model self)) 0, replicate (length (model self)) 0))"

definition vadd :: "real list \<Rightarrow> real list \<Rightarrow> real list" where
  "vadd a b = map2 (+) a b"

lemma length_vadd [simp]: "length (vadd a b) = min (length a) (length b)"
  by (simp add: vadd_def)

lemma vadd_nth: "c < length a \<Longrightarrow> c < length b \<Longrightarrow> vadd a b ! c = a ! c + b ! c"
  by (simp add: vadd_def)

lemma vadd_zeros [simp]: "vadd (replicate (length b) 0) b = b"
  by (rule nth_equalityI) (simp_all add: vadd_nth)

lemma atomicAdd_vadd:
  assumes "length a = length b"
  shows "atomicAdd i v (vadd a b) = vadd (atomicAdd i v a) b"
proof (rule nth_equalityI)
  show "length (atomicAdd i v (vadd a b)) = length (vadd (atomicAdd i v a) b)"
    using assms by simp
  fix c assume "c < length (atomicAdd i v (vadd a b))"
  then have c: "c < length a" "c < length b" using assms by simp_all
  show "atomicAdd i v (vadd a b) ! c = vadd (atomicAdd i v a) b ! c"
    using c assms by (cases "c = i") (simp_all add: atomicAdd_def vadd_nth)
qed

lemma length_slice_merge:
  "length (fst (slice_merge view angle sz x y mw)) = length (fst mw)"
  "length (snd (slice_merge view angle sz x y mw)) = length (snd mw)"
  by (cases mw; simp add: slice_merge_def Let_def)+

lemma slice_merge_vadd:
  assumes "length m = length m0" "length w = length w0"
  shows "slice_merge view angle sz x y (vadd m m0, vadd w w0)
           = (vadd (fst (slice_merge view angle sz x y (m, w))) m0,
              vadd (snd (slice_merge view angle sz x y (m, w))) w0)"
  using assms by (simp add: slice_merge_def Let_def atomicAdd_vadd)

lemma fold_slice_merge_vadd:
  assumes "length m = length m0" "length w = length w0"
  shows "fold (\<lambda>(x, y). slice_merge view angle sz x y) xys (vadd m m0, vadd w w0)
           = (vadd (fst (fold (\<lambda>(x, y). slice_merge view angle sz x y) xys (m, w))) m0,
              vadd (snd (fold (\<lambda>(x, y). slice_merge view angle sz x y) xys (m, w))) w0)"
  using assms
proof (induction xys arbitrary: m w)
  case Nil
  show ?case by simp
next
  case (Cons xy xys)
  obtain x y where xy: "xy = (x, y)" by (cases xy)
  obtain m' w' where s: "slice_merge view angle sz x y (m, w) = (m', w')"
    by (cases "slice_merge view angle sz x y (m, w)")
  have l: "length m' = length m0" "length w' = length w0"
    using length_slice_merge [of view angle sz x y "(m, w)"] Cons.prems by (simp_all add: s)
  show ?case
    using Cons.IH [OF l] by (simp add: xy slice_merge_vadd [OF Cons.prems] s)
qed

text \<open>A launch of \<^verbatim>\<open>slice_merge\<close> adds to the accumulators what it adds to cleared ones.\<close>

lemma launch_slice_merge_additive:
  assumes "length dm = N" "length dw = N"
  shows "launch_2d g (slice_merge view angle sz) (dm, dw)
           = (vadd (fst (launch_2d g (slice_merge view angle sz) (replicate N 0, replicate N 0))) dm,
              vadd (snd (launch_2d g (slice_merge view angle sz) (replicate N 0, replicate N 0))) dw)"
proof -
  have "launch_2d g (slice_merge view angle sz) (vadd (replicate N 0) dm, vadd (replicate N 0) dw)
      = (vadd (fst (launch_2d g (slice_merge view angle sz) (replicate N 0, replicate N 0))) dm,
         vadd (snd (launch_2d g (slice_merge view angle sz) (replicate N 0, replicate N 0))) dw)"
    unfolding launch_2d_def by (rule fold_slice_merge_vadd) (simp_all add: assms)
  then show ?thesis using assms vadd_zeros [of dm] vadd_zeros [of dw] by simp
qed

lemma length_launch_slice_merge:
  "length (fst (launch_2d g (slice_merge view angle sz) mw)) = length (fst mw)"
  "length (snd (launch_2d g (slice_merge view angle sz) mw)) = length (snd mw)"
proof -
  have "length (fst (launch_2d g (slice_merge view angle sz) mw)) = length (fst mw)
      \<and> length (snd (launch_2d g (slice_merge view angle sz) mw)) = length (snd mw)"
    unfolding launch_2d_def
    by (rule fold_invariant [where P = "\<lambda>s. length (fst s) = length (fst mw) \<and> length (snd s) = length (snd mw)"])
       (auto simp: length_slice_merge)
  then show "length (fst (launch_2d g (slice_merge view angle sz) mw)) = length (fst mw)"
    "length (snd (launch_2d g (slice_merge view angle sz) mw)) = length (snd mw)" by simp_all
qed

lemma length_contrib [simp]:
  "length (fst (contrib self r)) = length (model self)"
  "length (snd (contrib self r)) = length (model self)"
  by (simp_all add: contrib_def length_launch_slice_merge)

lemma length_launch_merge_all [simp]:
  "length (launch_1d g (merge_all prob_r ndata on mu o_acc m_acc p_o p_m c_m) view) = length view"
  unfolding launch_1d_def by (rule fold_invariant) simp_all

lemma emc_update_model_step_contrib:
  fixes me self :: emc
  assumes "dset me = dset self" "sizeN me = sizeN self" "num_rot me = num_rot self"
    and "i < length (prob me)" "prob me ! i = nrow self r"
    and "length view = sizeN self * sizeN self"
    and "length dm = length (model self)" "length dw = length (model self)"
  shows "\<exists>view'. length view' = sizeN self * sizeN self
           \<and> emc_update_model_step me (asum1 (prob me)) (i, r) (view, dm, dw)
               = (view', vadd (fst (contrib self r)) dm, vadd (snd (contrib self r)) dw)"
proof (cases "sum_list (nrow self r) = 0")
  case True
  then have "asum1 (prob me) ! i = 0" using assms(4,5) by (simp add: asum1_def)
  then have "emc_update_model_step me (asum1 (prob me)) (i, r) (view, dm, dw) = (view, dm, dw)"
    by (simp add: emc_update_model_step_def)
  moreover have "vadd (fst (contrib self r)) dm = dm" "vadd (snd (contrib self r)) dw = dw"
    using True assms(7,8) vadd_zeros [of dm] vadd_zeros [of dw] by (simp_all add: contrib_def)
  ultimately show ?thesis using assms(6) by simp
next
  case False
  have pn: "asum1 (prob me) ! i = sum_list (nrow self r)"
    using assms(4,5) by (simp add: asum1_def)
  let ?view = "launch_1d (bsize (num_data (dset self)))
      (merge_all (nrow self r) (num_data (dset self)) (ones (dset self)) (multi (dset self))
         (ones_accum (dset self)) (multi_accum (dset self)) (place_ones (dset self))
         (place_multi (dset self)) (count_multi (dset self)))
      (replicate (length view) 0)"
  have mv: "?view = merged self r" by (simp add: merged_def assms(6))
  have "emc_update_model_step me (asum1 (prob me)) (i, r) (view, dm, dw)
      = (?view, launch_2d (bsize (sizeN self))
           (slice_merge (map (\<lambda>v. v / sum_list (nrow self r)) ?view)
              (angle_of r (num_rot self)) (sizeN self)) (dm, dw))"
    using False by (simp add: emc_update_model_step_def pn assms(1,2,3,5) Let_def case_prod_unfold)
  also have "\<dots> = (merged self r, vadd (fst (contrib self r)) dm, vadd (snd (contrib self r)) dw)"
    unfolding mv
    using launch_slice_merge_additive [OF assms(7,8)] False by (simp add: contrib_def)
  finally show ?thesis by (auto simp: merged_def)
qed

lemma emc_update_model_fold_contrib:
  fixes me self :: emc
  assumes "dset me = dset self" "sizeN me = sizeN self" "num_rot me = num_rot self"
    and "length view = sizeN self * sizeN self"
    and "length dm = length (model self)" "length dw = length (model self)"
    and "k + length rs \<le> length (prob me)"
    and "\<forall>j<length rs. prob me ! (k + j) = nrow self (rs ! j)"
  shows "\<exists>view' dm' dw'.
           fold (emc_update_model_step me (asum1 (prob me))) (enumerate k rs) (view, dm, dw)
             = (view', dm', dw')
         \<and> length dm' = length (model self) \<and> length dw' = length (model self)
         \<and> (\<forall>c<length (model self).
               dm' ! c = dm ! c + sum_list (map (\<lambda>r. fst (contrib self r) ! c) rs)
             \<and> dw' ! c = dw ! c + sum_list (map (\<lambda>r. snd (contrib self r) ! c) rs))"
  using assms(4-)
proof (induction rs arbitrary: k view dm dw)
  case Nil
  then show ?case by simp
next
  case (Cons r rs)
  have i: "k < length (prob me)" "prob me ! k = nrow self r"
    using Cons.prems(4,5) by auto
  obtain view1 where v1: "length view1 = sizeN self * sizeN self"
    and step: "emc_update_model_step me (asum1 (prob me)) (k, r) (view, dm, dw)
        = (view1, vadd (fst (contrib self r)) dm, vadd (snd (contrib self r)) dw)"
    using emc_update_model_step_contrib [OF assms(1,2,3) i Cons.prems(1,2,3)] by blast
  let ?dm1 = "vadd (fst (contrib self r)) dm" and ?dw1 = "vadd (snd (contrib self r)) dw"
  have l1: "length ?dm1 = length (model self)" "length ?dw1 = length (model self)"
    using Cons.prems(2,3) by simp_all
  have "\<forall>j<length rs. prob me ! (Suc k + j) = nrow self (rs ! j)"
    using Cons.prems(5) by (metis add_Suc_shift length_Cons not_less_eq nth_Cons_Suc)
  moreover have "Suc k + length rs \<le> length (prob me)" using Cons.prems(4) by simp
  ultimately obtain view' dm' dw' where
      f: "fold (emc_update_model_step me (asum1 (prob me))) (enumerate (Suc k) rs) (view1, ?dm1, ?dw1)
             = (view', dm', dw')"
      and l: "length dm' = length (model self)" "length dw' = length (model self)"
      and c: "\<forall>c<length (model self).
               dm' ! c = ?dm1 ! c + sum_list (map (\<lambda>r. fst (contrib self r) ! c) rs)
             \<and> dw' ! c = ?dw1 ! c + sum_list (map (\<lambda>r. snd (contrib self r) ! c) rs)"
    using Cons.IH [OF v1 l1] by blast
  have "\<forall>c<length (model self).
               dm' ! c = dm ! c + sum_list (map (\<lambda>r. fst (contrib self r) ! c) (r # rs))
             \<and> dw' ! c = dw ! c + sum_list (map (\<lambda>r. snd (contrib self r) ! c) (r # rs))"
    using c Cons.prems(2,3) by (simp add: vadd_nth)
  then show ?case
    using f l step by simp
qed

text \<open>
  The M-step of a rank that holds the normalized rows of its orientations: every cell
  of the accumulators holds the sum of what the owned orientations add to it.
\<close>

lemma emc_update_model_contrib:
  fixes me self :: emc
  assumes "dset me = dset self" "sizeN me = sizeN self" "num_rot me = num_rot self"
    and "prob me = map (nrow self) (owned_rots (rank me) (num_rot me) (num_proc me))"
    and "length view = sizeN self * sizeN self"
    and "length dmodel = length (model self)" "length dmweights = length (model self)"
  defines "res \<equiv> snd (emc_update_model me view dmodel dmweights)"
  shows "length (fst res) = length (model self)" and "length (snd res) = length (model self)"
    and "c < length (model self) \<Longrightarrow>
           fst res ! c = sum_list (map (\<lambda>r. fst (contrib self r) ! c)
                            (owned_rots (rank me) (num_rot me) (num_proc me)))"
    and "c < length (model self) \<Longrightarrow>
           snd res ! c = sum_list (map (\<lambda>r. snd (contrib self r) ! c)
                            (owned_rots (rank me) (num_rot me) (num_proc me)))"
proof -
  let ?rs = "owned_rots (rank me) (num_rot me) (num_proc me)"
  let ?z = "replicate (length (model self)) (0::real)"
  have "0 + length ?rs \<le> length (prob me)" "\<forall>j<length ?rs. prob me ! (0 + j) = nrow self (?rs ! j)"
    by (simp_all add: assms(4))
  then obtain view' dm' dw' where
      f: "fold (emc_update_model_step me (asum1 (prob me))) (enumerate 0 ?rs) (view, ?z, ?z)
             = (view', dm', dw')"
      and l: "length dm' = length (model self)" "length dw' = length (model self)"
      and c: "\<forall>c<length (model self).
               dm' ! c = ?z ! c + sum_list (map (\<lambda>r. fst (contrib self r) ! c) ?rs)
             \<and> dw' ! c = ?z ! c + sum_list (map (\<lambda>r. snd (contrib self r) ! c) ?rs)"
    using emc_update_model_fold_contrib [OF assms(1,2,3,5), of ?z ?z 0 ?rs] by auto
  have res: "res = (dm', dw')"
    by (simp add: res_def emc_update_model_def Let_def assms(6,7) f)
  show "length (fst res) = length (model self)" "length (snd res) = length (model self)"
    by (simp_all add: res l)
  show "fst res ! c = sum_list (map (\<lambda>r. fst (contrib self r) ! c) ?rs)" if "c < length (model self)"
    using c that by (simp add: res)
  show "snd res ! c = sum_list (map (\<lambda>r. snd (contrib self r) ! c) ?rs)" if "c < length (model self)"
    using c that by (simp add: res)
qed

subsection \<open>One iteration of \<^verbatim>\<open>src/emc.py\<close> on a group of any size\<close>

text \<open>
  The sums over all orientations of what each adds to the accumulators, and the model
  that \<^verbatim>\<open>_normalize_model\<close> makes of them. Neither depends on a rank or on the number
  of processes.
\<close>

definition total_model :: "emc \<Rightarrow> real list" where
  "total_model self =
     map (\<lambda>c. \<Sum>r<num_rot self. fst (contrib self r) ! c) [0..<length (model self)]"

definition total_weights :: "emc \<Rightarrow> real list" where
  "total_weights self =
     map (\<lambda>c. \<Sum>r<num_rot self. snd (contrib self r) ! c) [0..<length (model self)]"

definition reference_model :: "emc \<Rightarrow> real list" where
  "reference_model self =
     map2 (\<lambda>m w. if w > 0 then m / w else m) (total_model self) (total_weights self)"

lemma normalize_model_nth:
  assumes "p < length xs"
  shows "model (normalize_model xs ! p)
           = map2 (\<lambda>m w. if w > 0 then m / w else m)
               (Reduce_SUM (map (\<lambda>x. fst (snd x)) xs)) (Reduce_SUM (map (\<lambda>x. snd (snd x)) xs))"
    and "rank (fst (xs ! p)) = 0 \<Longrightarrow>
           mweights (normalize_model xs ! p) = Reduce_SUM (map (\<lambda>x. snd (snd x)) xs)"
    and "length (normalize_model xs) = length xs"
  using assms by (simp_all add: normalize_model_def Let_def case_prod_unfold)

lemma Reduce_SUM_map:
  assumes "0 < k" "\<And>p. p < k \<Longrightarrow> length (f p) = N"
  shows "Reduce_SUM (map f [0..<k]) = map (\<lambda>c. sum_list (map (\<lambda>p. f p ! c) [0..<k])) [0..<N]"
proof (rule nth_equalityI)
  have ne: "map f [0..<k] \<noteq> []" using assms(1) by simp
  have la: "list_all (\<lambda>b. length b = N) (map f [0..<k])"
    using assms(2) by (simp add: list_all_iff)
  show "length (Reduce_SUM (map f [0..<k]))
      = length (map (\<lambda>c. sum_list (map (\<lambda>p. f p ! c) [0..<k])) [0..<N])"
    using Reduce_SUM_nth(2) [OF ne la] by (cases "N = 0") (simp_all add: Reduce_SUM_def ncols_eq [OF ne la])
  fix c assume "c < length (Reduce_SUM (map f [0..<k]))"
  then have c: "c < N" by (simp add: Reduce_SUM_def ncols_eq [OF ne la])
  show "Reduce_SUM (map f [0..<k]) ! c
      = map (\<lambda>c. sum_list (map (\<lambda>p. f p ! c) [0..<k])) [0..<N] ! c"
    using Reduce_SUM_nth(1) [OF ne la c] c by (simp add: comp_def)
qed

lemma spmd_nth [simp]:
  "p < k \<Longrightarrow> spmd self k ! p = self\<lparr>rank := p, num_proc := k\<rparr>"
  "length (spmd self k) = k"
  by (simp_all add: spmd_def)

lemma log_row_rank [simp]: "log_row (self\<lparr>rank := p, num_proc := k\<rparr>) = log_row self"
  by (rule ext) (simp add: log_row_def render_def)

lemma spmd_estep:
  fixes self :: emc
  assumes "length bufs = k" "p < k"
    and "array2 (fst (bufs ! p)) (length (owned_rots p (num_rot self) k)) (num_data (dset self))"
    and "length (snd (bufs ! p)) = sizeN self * sizeN self"
  shows "\<exists>view'. length view' = sizeN self * sizeN self
           \<and> emc_estep (spmd self k) bufs ! p
               = (self\<lparr>rank := p, num_proc := k,
                        prob := map (log_row self) (owned_rots p (num_rot self) k)\<rparr>, view')"
proof -
  let ?me = "self\<lparr>rank := p, num_proc := k\<rparr>"
  have e: "emc_estep (spmd self k) bufs ! p
      = emc_calculate_prob (?me\<lparr>prob := fst (bufs ! p)\<rparr>) (model ?me) (snd (bufs ! p))"
    using emc_estep_nth [of bufs "spmd self k" p] assms(1,2) by simp
  have v: "length (snd (bufs ! p)) = sizeN ?me * sizeN ?me"
    using assms(4) by simp
  have a: "array2 (fst (bufs ! p))
      (length (owned_rots (rank ?me) (num_rot ?me) (num_proc ?me))) (num_data (dset ?me))"
    using assms(3) by simp
  obtain view' where "length view' = sizeN ?me * sizeN ?me"
    and "emc_calculate_prob (?me\<lparr>prob := fst (bufs ! p)\<rparr>) (model ?me) (snd (bufs ! p))
        = (?me\<lparr>prob := map (log_row ?me) (owned_rots (rank ?me) (num_rot ?me) (num_proc ?me))\<rparr>,
           view')"
    using emc_calculate_prob_rows [OF v a] by blast
  then show ?thesis
    unfolding e by (intro exI [of _ view']) simp
qed

lemma spmd_mstep:
  fixes self :: emc and p k :: nat and rm :: "int list"
  assumes "length (mweights self) = length (model self)"
    and "length view = sizeN self * sizeN self"
  defines "me \<equiv> self\<lparr>rank := p, num_proc := k,
                       prob := map (nrow self) (owned_rots p (num_rot self) k), rmax := rm\<rparr>"
  defines "res \<equiv> snd (emc_update_model me view (model me) (mweights me))"
  shows "length (fst res) = length (model self)" and "length (snd res) = length (model self)"
    and "c < length (model self) \<Longrightarrow>
           fst res ! c = sum_list (map (\<lambda>r. fst (contrib self r) ! c) (owned_rots p (num_rot self) k))"
    and "c < length (model self) \<Longrightarrow>
           snd res ! c = sum_list (map (\<lambda>r. snd (contrib self r) ! c) (owned_rots p (num_rot self) k))"
proof -
  have f: "dset me = dset self" "sizeN me = sizeN self" "num_rot me = num_rot self"
    "prob me = map (nrow self) (owned_rots (rank me) (num_rot me) (num_proc me))"
    by (simp_all add: me_def)
  have l: "length (model me) = length (model self)" "length (mweights me) = length (model self)"
    using assms(1) by (simp_all add: me_def)
  have o: "owned_rots (rank me) (num_rot me) (num_proc me) = owned_rots p (num_rot self) k"
    by (simp add: me_def)
  note t = emc_update_model_contrib [OF f assms(2) l, folded res_def, unfolded o]
  show "length (fst res) = length (model self)" by (rule t(1))
  show "length (snd res) = length (model self)" by (rule t(2))
  show "fst res ! c = sum_list (map (\<lambda>r. fst (contrib self r) ! c) (owned_rots p (num_rot self) k))"
    if "c < length (model self)" using that by (rule t(3))
  show "snd res ! c = sum_list (map (\<lambda>r. snd (contrib self r) ! c) (owned_rots p (num_rot self) k))"
    if "c < length (model self)" using that by (rule t(4))
qed

lemma sum_list_owned_total:
  fixes g :: "nat \<Rightarrow> nat \<Rightarrow> real"
  assumes "0 < k"
    and "\<And>p. p < k \<Longrightarrow> g p c = sum_list (map (\<lambda>r. f r) (owned_rots p n k))"
  shows "sum_list (map (\<lambda>p. g p c) [0..<k]) = sum f {..<n}"
proof -
  have "map (\<lambda>p. g p c) [0..<k] = map (\<lambda>p. sum_list (map f (owned_rots p n k))) [0..<k]"
    by (rule map_cong [OF refl]) (simp add: assms(2))
  then show ?thesis by (simp only: sum_owned_rots [OF assms(1)])
qed

text \<open>
  One iteration on \<open>k\<close> ranks that start from the same object: it returns, and every
  rank ends with the model made of the sums over all orientations.
\<close>

lemma spmd_run_iteration:
  fixes self :: emc
  assumes k: "0 < k" "k \<le> num_rot self"
    and mw: "length (mweights self) = length (model self)"
    and lb: "length bufs = k"
    and shp: "\<And>p. p < k \<Longrightarrow> array2 (fst (bufs ! p)) (length (owned_rots p (num_rot self) k))
                                (num_data (dset self))"
    and shv: "\<And>p. p < k \<Longrightarrow> length (snd (bufs ! p)) = sizeN self * sizeN self"
  shows "\<exists>res. emc_run_iteration (spmd self k) bufs = Inr res \<and> length res = k
           \<and> (\<forall>p<k. model (res ! p) = reference_model self)
           \<and> mweights (res ! 0) = total_weights self"
proof -
  define N where "N = length (model self)"
  define es where "es = emc_estep (spmd self k) bufs"
  have les: "length es = k" by (simp add: es_def emc_estep_def lb)
  have E: "\<exists>view'. length view' = sizeN self * sizeN self
           \<and> es ! p = (self\<lparr>rank := p, num_proc := k,
                            prob := map (log_row self) (owned_rots p (num_rot self) k)\<rparr>, view')"
    if "p < k" for p
    unfolding es_def by (rule spmd_estep [OF lb that shp [OF that] shv [OF that]])
  have lm: "length (map fst es) = k" by (simp add: les)
  have P: "prob (map fst es ! p) = map (log_row self) (owned_rots p (num_rot self) k)"
    if "p < k" for p
    using E [OF that] that les by auto
  obtain normed rm where nm: "emc_normalize_prob (map fst es) = Inr normed"
    and ln: "length normed = k"
    and np: "\<forall>p<k. normed ! p
        = (map fst es ! p)\<lparr>prob := map (nrow self) (owned_rots p (num_rot self) k), rmax := rm\<rparr>"
    using spmd_normalize_prob [OF k lm P] by blast
  have NP: "normed ! p = self\<lparr>rank := p, num_proc := k,
        prob := map (nrow self) (owned_rots p (num_rot self) k), rmax := rm\<rparr>"
    if pk: "p < k" for p
  proof -
    obtain view' where "es ! p = (self\<lparr>rank := p, num_proc := k,
        prob := map (log_row self) (owned_rots p (num_rot self) k)\<rparr>, view')"
      using E [OF pk] by blast
    then have "map fst es ! p = self\<lparr>rank := p, num_proc := k,
        prob := map (log_row self) (owned_rots p (num_rot self) k)\<rparr>"
      using pk les by simp
    then show ?thesis using np pk by simp
  qed
  define ms where "ms = emc_mstep normed es"
  have lms: "length ms = k" by (simp add: ms_def emc_mstep_def ln les)
  define dm where "dm p = fst (snd (ms ! p))" for p
  define dw where "dw p = snd (snd (ms ! p))" for p
  have M: "length (dm p) = N \<and> length (dw p) = N
      \<and> (\<forall>c<N. dm p ! c = sum_list (map (\<lambda>r. fst (contrib self r) ! c) (owned_rots p (num_rot self) k))
               \<and> dw p ! c = sum_list (map (\<lambda>r. snd (contrib self r) ! c) (owned_rots p (num_rot self) k)))"
    and R: "rank (fst (ms ! p)) = p"
    if pk: "p < k" for p
  proof -
    obtain view' where v: "length view' = sizeN self * sizeN self" and "snd (es ! p) = view'"
      using E [OF pk] by auto
    then have s: "snd (ms ! p) = snd (emc_update_model (normed ! p) view'
        (model (normed ! p)) (mweights (normed ! p)))"
      and f: "fst (ms ! p) = normed ! p"
      using emc_mstep_nth [of normed es p] pk ln les by (simp_all add: ms_def)
    note t = spmd_mstep [OF mw v, where p = p and k = k and rm = rm, folded NP [OF pk], folded s, folded N_def]
    show "length (dm p) = N \<and> length (dw p) = N
      \<and> (\<forall>c<N. dm p ! c = sum_list (map (\<lambda>r. fst (contrib self r) ! c) (owned_rots p (num_rot self) k))
               \<and> dw p ! c = sum_list (map (\<lambda>r. snd (contrib self r) ! c) (owned_rots p (num_rot self) k)))"
      unfolding dm_def dw_def using t by simp
    show "rank (fst (ms ! p)) = p"
      unfolding f NP [OF pk] by simp
  qed
  have msn: "ms = map (\<lambda>p. ms ! p) [0..<k]"
    using map_nth [of ms] lms by simp
  have fm: "map (\<lambda>x. fst (snd x)) ms = map dm [0..<k]"
    by (subst msn) (simp add: dm_def)
  have fw: "map (\<lambda>x. snd (snd x)) ms = map dw [0..<k]"
    by (subst msn) (simp add: dw_def)
  have "Reduce_SUM (map dm [0..<k]) = map (\<lambda>c. sum_list (map (\<lambda>p. dm p ! c) [0..<k])) [0..<N]"
    by (rule Reduce_SUM_map [OF k(1)]) (simp add: M)
  also have "\<dots> = total_model self"
    unfolding total_model_def N_def [symmetric]
  proof (rule map_cong [OF refl])
    fix c assume "c \<in> set [0..<N]"
    then have c: "c < N" by simp
    show "sum_list (map (\<lambda>p. dm p ! c) [0..<k]) = (\<Sum>r<num_rot self. fst (contrib self r) ! c)"
      by (rule sum_list_owned_total [OF k(1)]) (use M c in simp)
  qed
  finally have rm: "Reduce_SUM (map (\<lambda>x. fst (snd x)) ms) = total_model self"
    by (simp only: fm)
  have "Reduce_SUM (map dw [0..<k]) = map (\<lambda>c. sum_list (map (\<lambda>p. dw p ! c) [0..<k])) [0..<N]"
    by (rule Reduce_SUM_map [OF k(1)]) (simp add: M)
  also have "\<dots> = total_weights self"
    unfolding total_weights_def N_def [symmetric]
  proof (rule map_cong [OF refl])
    fix c assume "c \<in> set [0..<N]"
    then have c: "c < N" by simp
    show "sum_list (map (\<lambda>p. dw p ! c) [0..<k]) = (\<Sum>r<num_rot self. snd (contrib self r) ! c)"
      by (rule sum_list_owned_total [OF k(1)]) (use M c in simp)
  qed
  finally have rw: "Reduce_SUM (map (\<lambda>x. snd (snd x)) ms) = total_weights self"
    by (simp only: fw)
  have run: "emc_run_iteration (spmd self k) bufs = Inr (normalize_model ms)"
    by (simp add: emc_run_iteration_alt es_def [symmetric] nm ms_def)
  have a: "length (normalize_model ms) = k"
    using normalize_model_nth(3) [of 0 ms] lms k(1) by simp
  have b: "\<forall>p<k. model (normalize_model ms ! p) = reference_model self"
    using normalize_model_nth(1) [of _ ms] lms by (simp add: rm rw reference_model_def)
  have "rank (fst (ms ! 0)) = 0" using R [OF k(1)] .
  then have c: "mweights (normalize_model ms ! 0) = total_weights self"
    using normalize_model_nth(2) [of 0 ms] lms k(1) by (simp add: rw)
  show ?thesis
    apply (rule exI [of _ "normalize_model ms"])
    apply (intro conjI)
    apply (fact run a b c)+
    done
qed

text \<open>Without any orientation every rank raises in \<^verbatim>\<open>_normalize_prob\<close>, at \<^verbatim>\<open>self.prob.max(0)\<close>.\<close>

lemma spmd_run_iteration_empty:
  fixes self :: emc
  assumes k: "0 < k" and n: "num_rot self = 0"
    and lb: "length bufs = k"
    and shp: "\<And>p. p < k \<Longrightarrow> array2 (fst (bufs ! p)) (length (owned_rots p (num_rot self) k))
                                (num_data (dset self))"
    and shv: "\<And>p. p < k \<Longrightarrow> length (snd (bufs ! p)) = sizeN self * sizeN self"
  shows "emc_run_iteration (spmd self k) bufs = Inl ValueError"
proof -
  define es where "es = emc_estep (spmd self k) bufs"
  have les: "length es = k" by (simp add: es_def emc_estep_def lb)
  have "length (owned_rots 0 (num_rot self) k) = 0"
    using owned_rots_length [OF k, of "num_rot self"] by (simp add: n num_rot_p_def)
  then have o: "owned_rots 0 (num_rot self) k = []" by simp
  obtain view' where "es ! 0 = (self\<lparr>rank := 0, num_proc := k,
      prob := map (log_row self) (owned_rots 0 (num_rot self) k)\<rparr>, view')"
    using spmd_estep [OF lb k shp [OF k] shv [OF k]] unfolding es_def by blast
  then have "prob (map fst es ! 0) = []"
    using les k by (simp add: o)
  moreover have "map fst es ! 0 \<in> set (map fst es)"
    by (rule nth_mem) (simp add: les k)
  ultimately have "list_ex (\<lambda>s. prob s = []) (map fst es)"
    unfolding list_ex_iff by blast
  then have "emc_normalize_prob (map fst es) = Inl ValueError"
    by (simp add: emc_normalize_prob_def normalize_sums_def)
  then show ?thesis
    by (simp add: emc_run_iteration_alt es_def [symmetric])
qed

text \<open>
  Claim C4. Let \<open>k\<close> processes, with \<open>k\<close> dividing the number of orientations, and one
  process start an iteration of \<^verbatim>\<open>src/emc.py\<close> from the same object (dataset, model,
  weights, scale factors, number of orientations), each rank with buffers of the shapes
  that \<^verbatim>\<open>run_iteration\<close> asks \<^verbatim>\<open>cp.empty\<close> for, whatever they hold. When there is an
  orientation, both runs return, every rank of the \<open>k\<close> processes ends with the model
  that the single process ends with, and the roots end with the same weights. When
  there is none, both runs raise the same error. Numbers are reals here: the sums that
  the processes add up in another order are equal.
\<close>

theorem emc_process_count_invariance:
  fixes self :: emc
  assumes "0 < k" "k dvd num_rot self"
    and "length (mweights self) = length (model self)"
    and "length bufs = k"
    and "\<forall>p<k. array2 (fst (bufs ! p)) (num_rot_p p (num_rot self) k) (num_data (dset self))
               \<and> length (snd (bufs ! p)) = sizeN self * sizeN self"
    and "array2 (fst buf1) (num_rot_p 0 (num_rot self) 1) (num_data (dset self))"
    and "length (snd buf1) = sizeN self * sizeN self"
  shows "(0 < num_rot self \<longrightarrow>
           (\<exists>res1 resk. emc_run_iteration (spmd self 1) [buf1] = Inr res1
              \<and> emc_run_iteration (spmd self k) bufs = Inr resk
              \<and> length res1 = 1 \<and> length resk = k
              \<and> (\<forall>p<k. model (resk ! p) = model (res1 ! 0))
              \<and> mweights (resk ! 0) = mweights (res1 ! 0)))
       \<and> (num_rot self = 0 \<longrightarrow>
            emc_run_iteration (spmd self 1) [buf1] = Inl ValueError
          \<and> emc_run_iteration (spmd self k) bufs = Inl ValueError)"
proof -
  have shp: "array2 (fst (bufs ! p)) (length (owned_rots p (num_rot self) k)) (num_data (dset self))"
    and shv: "length (snd (bufs ! p)) = sizeN self * sizeN self" if "p < k" for p
    using assms(5) that by (simp_all add: owned_rots_length)
  have one: "(0::nat) < 1" by simp
  have l1: "length [buf1] = 1" by simp
  have shp1: "array2 (fst ([buf1] ! p)) (length (owned_rots p (num_rot self) 1)) (num_data (dset self))"
    and shv1: "length (snd ([buf1] ! p)) = sizeN self * sizeN self" if "p < 1" for p
    using assms(6,7) that by (simp_all add: owned_rots_length)
  show ?thesis
  proof (intro conjI impI)
    assume pos: "0 < num_rot self"
    then have kn: "k \<le> num_rot self" using assms(2) by (simp add: dvd_imp_le)
    have n1: "1 \<le> num_rot self" using pos by simp
    obtain resk where rk: "emc_run_iteration (spmd self k) bufs = Inr resk" "length resk = k"
      "\<forall>p<k. model (resk ! p) = reference_model self" "mweights (resk ! 0) = total_weights self"
      using spmd_run_iteration [OF assms(1) kn assms(3,4) shp shv] by blast
    obtain res1 where r1: "emc_run_iteration (spmd self 1) [buf1] = Inr res1" "length res1 = 1"
      "\<forall>p<1. model (res1 ! p) = reference_model self" "mweights (res1 ! 0) = total_weights self"
      using spmd_run_iteration [OF one n1 assms(3) l1 shp1 shv1] by blast
    have m: "\<forall>p<k. model (resk ! p) = model (res1 ! 0)"
      using rk(3) r1(3) by simp
    have w: "mweights (resk ! 0) = mweights (res1 ! 0)"
      using rk(4) r1(4) by simp
    show "\<exists>res1 resk. emc_run_iteration (spmd self 1) [buf1] = Inr res1
              \<and> emc_run_iteration (spmd self k) bufs = Inr resk
              \<and> length res1 = 1 \<and> length resk = k
              \<and> (\<forall>p<k. model (resk ! p) = model (res1 ! 0))
              \<and> mweights (resk ! 0) = mweights (res1 ! 0)"
      apply (rule exI [of _ res1])
      apply (rule exI [of _ resk])
      apply (intro conjI)
      apply (fact r1 rk m w)+
      done
  next
    assume z: "num_rot self = 0"
    show "emc_run_iteration (spmd self 1) [buf1] = Inl ValueError"
      by (rule spmd_run_iteration_empty [OF one z l1 shp1 shv1])
    show "emc_run_iteration (spmd self k) bufs = Inl ValueError"
      by (rule spmd_run_iteration_empty [OF assms(1) z assms(4) shp shv])
  qed
qed

theorem emc_process_count_invariance_witness:
  "\<exists>res1 res2.
      emc_run_iteration (spmd (example_emc\<lparr>num_rot := 2\<rparr>) 1) [([[7], [8]], [9, 9, 9, 9])] = Inr res1
    \<and> emc_run_iteration (spmd (example_emc\<lparr>num_rot := 2\<rparr>) 2)
         [([[7]], [9, 9, 9, 9]), ([[8]], [5, 5, 5, 5])] = Inr res2
    \<and> length res1 = 1 \<and> length res2 = 2
    \<and> model (res2 ! 0) = model (res1 ! 0) \<and> model (res2 ! 1) = model (res1 ! 0)
    \<and> mweights (res2 ! 0) = mweights (res1 ! 0)"
proof -
  let ?self = "example_emc\<lparr>num_rot := 2\<rparr>"
  let ?bufs = "[([[7]], [9, 9, 9, 9]), ([[8]], [5, 5, 5, 5])] :: (real list list \<times> real list) list"
  let ?buf1 = "([[7], [8]], [9, 9, 9, 9]) :: real list list \<times> real list"
  have h: "(0::nat) < 2" "2 dvd num_rot ?self" "length (mweights ?self) = length (model ?self)"
    "length ?bufs = 2"
    by (simp_all add: example_emc_def)
  have b: "\<forall>p<2. array2 (fst (?bufs ! p)) (num_rot_p p (num_rot ?self) 2) (num_data (dset ?self))
               \<and> length (snd (?bufs ! p)) = sizeN ?self * sizeN ?self"
  proof (intro allI impI)
    fix p :: nat assume "p < 2"
    then have "p = 0 \<or> p = Suc 0" by auto
    then show "array2 (fst (?bufs ! p)) (num_rot_p p (num_rot ?self) 2) (num_data (dset ?self))
               \<and> length (snd (?bufs ! p)) = sizeN ?self * sizeN ?self"
      by (auto simp: array2_def num_rot_p_def example_emc_def example_dset_def)
  qed
  have c: "array2 (fst ?buf1) (num_rot_p 0 (num_rot ?self) 1) (num_data (dset ?self))"
    "length (snd ?buf1) = sizeN ?self * sizeN ?self"
    by (simp_all add: array2_def num_rot_p_def example_emc_def example_dset_def)
  have pos: "0 < num_rot ?self" by simp
  from mp [OF conjunct1 [OF emc_process_count_invariance [OF h b c]] pos]
  obtain res1 res2 where
      r: "emc_run_iteration (spmd ?self 1) [?buf1] = Inr res1"
         "emc_run_iteration (spmd ?self 2) ?bufs = Inr res2"
         "length res1 = 1" "length res2 = 2"
      and m: "\<forall>p<2. model (res2 ! p) = model (res1 ! 0)"
      and w: "mweights (res2 ! 0) = mweights (res1 ! 0)"
    by (elim exE conjE)
  have m0: "model (res2 ! 0) = model (res1 ! 0)" and m1: "model (res2 ! 1) = model (res1 ! 0)"
    using m by simp_all
  show ?thesis
    apply (rule exI [of _ res1])
    apply (rule exI [of _ res2])
    apply (intro conjI)
    apply (fact r m0 m1 w)+
    done
qed

end
